theory Spec2Isabelle
  imports Main
begin

section \<open>Data model\<close>

text \<open>
  JavaScript numbers that hold block heights, counters, retry counts and millisecond
  delays are modelled as \<open>int\<close>; dates are milliseconds since the epoch.
\<close>

text \<open>\<open>ScannerConfig\<close> and \<open>ChainConfig\<close> (types/index.ts).\<close>

record ScannerConfig =
  batchSize :: int
  intervalMs :: int
  maxRetries :: int
  retryDelayMs :: int

record ChainConfig =
  name :: string
  chainId :: int
  rpcUrl :: string
  contractAddress :: string
  startBlock :: int

text \<open>
  \<open>ScanProgress\<close> (models/ScanProgress.ts): one document per chain, the collection has a
  unique index on \<open>chain\<close>.
\<close>

record ScanProgress =
  chain :: string
  lastScannedBlock :: int
  lastScanTime :: int
  totalEventsFound :: int
  totalBlocksScanned :: int
  updatedAt :: int

text \<open>
  \<open>ParsedFeeCollectedEvent\<close> (types/index.ts) and the stored \<open>FeeEvent\<close> document
  (models/FeeEvent.ts). \<open>storeEvents\<close> copies every field of the parsed event and adds
  the chain tag, so the document extends the parsed event. The two fee amounts are stored
  as the decimal rendering of the big number; the model keeps the number itself. The
  chain tag of the event document is called \<open>eventChain\<close> because \<open>chain\<close> is the field
  of \<open>ScanProgress\<close>.
\<close>

record ParsedFeeCollectedEvent =
  token :: string
  integrator :: string
  integratorFee :: int
  lifiFee :: int
  blockNumber :: int
  transactionHash :: string
  logIndex :: int
  timestamp :: int

record FeeEvent = ParsedFeeCollectedEvent +
  eventChain :: string

text \<open>
  A raw log entry as \<open>queryFilter\<close> returns it (\<open>ethers.Event\<close>): the fields the
  parser reads, and the decoded arguments. \<open>rawArgs = None\<close> stands for a log that
  \<open>parseLog\<close> rejects by throwing; an empty address string is a falsy argument.
\<close>

record RawEvent =
  rawBlockNumber :: int
  rawTransactionHash :: string
  rawLogIndex :: "int option"
  rawArgs :: "(string \<times> string \<times> int \<times> int) option"

text \<open>
  Errors. \<open>MongoError code n\<close> is a driver write error with its numeric \<open>code\<close> and the
  length of its \<open>writeErrors\<close> array; code 11000 is the duplicate-key error.
  \<open>MongoNetworkError\<close> is any driver failure that carries no such code.
\<close>

datatype error =
    RpcError
  | EventLoadingFailed
  | BlockNumberFailed int
  | UnexpectedError
  | ProgressNotFound string
  | MongoNetworkError
  | MongoError int nat

fun code :: "error \<Rightarrow> int option" where
  "code (MongoError c n) = Some c"
| "code _ = None"

text \<open>
  The calls that leave the process, in the order they are made (a history variable; the
  source has no such field). \<open>Fetch from to\<close> is one \<open>queryFilter\<close> call,
  \<open>BatchStored from to\<close> marks \<open>scanBatch from to\<close> returning normally (all events of
  the range fetched and handed to the store), \<open>Save p\<close> is one successful
  \<open>progress.save()\<close>, \<open>Delay ms\<close> one \<open>setTimeout\<close> pause.
\<close>

datatype call =
    Fetch int int
  | BatchStored int int
  | Save ScanProgress
  | Delay int

text \<open>
  The state the scanner works on: the two collections, the scanner object's own fields
  \<open>isScanning\<close> and \<open>scanInterval\<close> (is the periodic timer set), the wall clock, the
  number of external calls made so far (\<open>tick\<close>), and the call history.
\<close>

record state =
  feeevents :: "FeeEvent list"
  scanprogress :: "ScanProgress list"
  isScanning :: bool
  scanInterval :: bool
  now :: int
  tick :: nat
  calls :: "call list"

text \<open>
  The environment: what the RPC endpoint and the database driver answer. Each answer may
  depend on how many external calls were made before (\<open>tick\<close>), so any sequence of
  failures and successes is some environment.
\<close>

record env =
  getCode :: "nat \<Rightarrow> string \<Rightarrow> error + string"
  getBlockNumber :: "nat \<Rightarrow> error + int"
  queryFilter :: "nat \<Rightarrow> int \<Rightarrow> int \<Rightarrow> error + RawEvent list"
  getBlock :: "nat \<Rightarrow> int \<Rightarrow> error + int"
  getAddress :: "string \<Rightarrow> error + string"
  dbDown :: "nat \<Rightarrow> bool"

section \<open>ScanProgress.updateProgress\<close>

definition updateProgress :: "int \<Rightarrow> int \<Rightarrow> int \<Rightarrow> int \<Rightarrow> ScanProgress \<Rightarrow> ScanProgress" where
  "updateProgress lastBlock eventsCount blocksScanned date p =
     p\<lparr>lastScannedBlock := max (lastScannedBlock p) lastBlock,
       lastScanTime := date,
       totalEventsFound := totalEventsFound p + eventsCount,
       totalBlocksScanned := totalBlocksScanned p + blocksScanned,
       updatedAt := date\<rparr>"

section \<open>Utilities\<close>

definition toLowerCase :: "string \<Rightarrow> string" where
  "toLowerCase str =
     map (\<lambda>c. if (65::nat) \<le> of_char c \<and> of_char c \<le> (90::nat)
              then char_of (of_char c + (32::nat)) else c) str"

text \<open>One external call has been made.\<close>

definition called :: "state \<Rightarrow> state" where
  "called s = s\<lparr>tick := Suc (tick s)\<rparr>"

text \<open>\<open>delay(ms)\<close>: a \<open>setTimeout\<close> pause; nothing else happens meanwhile.\<close>

definition delay :: "int \<Rightarrow> state \<Rightarrow> state" where
  "delay ms s = s\<lparr>now := now s + max 0 ms, calls := calls s @ [Delay ms]\<rparr>"

section \<open>BlockchainUtils and FeeCollectorService\<close>

text \<open>
  \<open>BlockchainUtils.getCurrentBlockNumber(provider, maxRetries = 3)\<close>: its own retry loop,
  \<open>for (attempt = 1; attempt <= maxRetries; attempt++)\<close>, with the final \<open>throw\<close> after
  the loop.
\<close>

function getCurrentBlockNumberFrom :: "env \<Rightarrow> int \<Rightarrow> int \<Rightarrow> state \<Rightarrow> (error + int) \<times> state" where
  "getCurrentBlockNumberFrom e maxR attempt s =
     (if attempt \<le> maxR then
        (case getBlockNumber e (tick s) of
           Inr n \<Rightarrow> (Inr n, called s)
         | Inl _ \<Rightarrow>
             if attempt = maxR then (Inl (BlockNumberFailed maxR), called s)
             else getCurrentBlockNumberFrom e maxR (attempt + 1) (delay (1000 * attempt) (called s)))
      else (Inl UnexpectedError, s))"
  by pat_completeness auto
termination
  by (relation "measure (\<lambda>(e, maxR, attempt, s). nat (maxR + 1 - attempt))") auto

definition getCurrentBlockNumber :: "env \<Rightarrow> state \<Rightarrow> (error + int) \<times> state" where
  "getCurrentBlockNumber e s = getCurrentBlockNumberFrom e 3 1 s"

text \<open>\<open>getBlockTimestamp\<close> falls back to the current time when the block fetch fails.\<close>

definition getBlockTimestamp :: "env \<Rightarrow> int \<Rightarrow> state \<Rightarrow> int \<times> state" where
  "getBlockTimestamp e blockNo s =
     (case getBlock e (tick s) blockNo of
        Inr ts \<Rightarrow> (ts * 1000, called s)
      | Inl _ \<Rightarrow> (now s, called s))"

definition normalizeAddress :: "env \<Rightarrow> string \<Rightarrow> error + string" where
  "normalizeAddress e address = getAddress e (toLowerCase address)"

definition validateContract :: "env \<Rightarrow> ChainConfig \<Rightarrow> state \<Rightarrow> bool \<times> state" where
  "validateContract e cc s =
     (case getCode e (tick s) (contractAddress cc) of
        Inr c \<Rightarrow> (c \<noteq> ''0x'', called s)
      | Inl _ \<Rightarrow> (False, called s))"

definition loadFeeCollectorEvents ::
    "env \<Rightarrow> int \<Rightarrow> int \<Rightarrow> state \<Rightarrow> (error + RawEvent list) \<times> state" where
  "loadFeeCollectorEvents e fromBlock toBlock s =
     (let s1 = (called s)\<lparr>calls := calls s @ [Fetch fromBlock toBlock]\<rparr> in
      case queryFilter e (tick s) fromBlock toBlock of
        Inr events \<Rightarrow> (Inr events, s1)
      | Inl _ \<Rightarrow> (Inl EventLoadingFailed, s1))"

text \<open>
  \<open>parseFeeCollectorEvents\<close>: every raw entry is decoded on its own; an entry that throws
  (\<open>parseLog\<close>, \<open>normalizeAddress\<close>) or has a falsy address argument is skipped.
\<close>

fun parseFeeCollectorEvents ::
    "env \<Rightarrow> RawEvent list \<Rightarrow> state \<Rightarrow> ParsedFeeCollectedEvent list \<times> state" where
  "parseFeeCollectorEvents e [] s = ([], s)"
| "parseFeeCollectorEvents e (ev # evs) s =
     (case rawArgs ev of
        None \<Rightarrow> parseFeeCollectorEvents e evs s
      | Some (a0, a1, a2, a3) \<Rightarrow>
          if a0 = [] \<or> a1 = [] then parseFeeCollectorEvents e evs s
          else
            (case getBlockTimestamp e (rawBlockNumber ev) s of
               (ts, s1) \<Rightarrow>
                 (case (normalizeAddress e a0, normalizeAddress e a1) of
                    (Inr t, Inr i) \<Rightarrow>
                      (case parseFeeCollectorEvents e evs s1 of
                         (rest, s2) \<Rightarrow>
                           (\<lparr>token = t, integrator = i, integratorFee = a2, lifiFee = a3,
                             blockNumber = rawBlockNumber ev,
                             transactionHash = rawTransactionHash ev,
                             logIndex = (case rawLogIndex ev of None \<Rightarrow> 0 | Some n \<Rightarrow> n),
                             timestamp = ts\<rparr> # rest, s2))
                  | _ \<Rightarrow> parseFeeCollectorEvents e evs s1)))"

section \<open>The two collections\<close>

text \<open>
  The database engine is not part of the repository. Its operations are modelled from the
  two index declarations of the models (\<open>@index({ transactionHash: 1, logIndex: 1 },
  { unique: true })\<close> on \<open>FeeEvent\<close>, \<open>@index({ chain: 1 }, { unique: true })\<close> on
  \<open>ScanProgress\<close>) and the \<open>{ ordered: false }\<close> option of the bulk insert: every
  document is tried in turn, one that collides with a stored key is rejected and counted
  as a write error, the others are inserted.
\<close>

definition sameKey :: "FeeEvent \<Rightarrow> FeeEvent \<Rightarrow> bool" where
  "sameKey a b \<longleftrightarrow> transactionHash a = transactionHash b \<and> logIndex a = logIndex b"

fun insertUnordered :: "FeeEvent list \<Rightarrow> FeeEvent list \<Rightarrow> FeeEvent list \<times> nat" where
  "insertUnordered coll [] = (coll, 0)"
| "insertUnordered coll (d # ds) =
     (if list_ex (\<lambda>x. sameKey x d) coll
      then (case insertUnordered coll ds of (coll', n) \<Rightarrow> (coll', Suc n))
      else insertUnordered (coll @ [d]) ds)"

definition insertMany :: "env \<Rightarrow> FeeEvent list \<Rightarrow> state \<Rightarrow> (error + unit) \<times> state" where
  "insertMany e docs s =
     (if dbDown e (tick s) then (Inl MongoNetworkError, called s)
      else
        (case insertUnordered (feeevents s) docs of
           (coll, n) \<Rightarrow>
             (if n = 0 then Inr () else Inl (MongoError 11000 n),
              (called s)\<lparr>feeevents := coll\<rparr>)))"

definition findOne :: "env \<Rightarrow> string \<Rightarrow> state \<Rightarrow> (error + ScanProgress option) \<times> state" where
  "findOne e c s =
     (if dbDown e (tick s) then (Inl MongoNetworkError, called s)
      else (Inr (find (\<lambda>p. chain p = c) (scanprogress s)), called s))"

definition create :: "env \<Rightarrow> ScanProgress \<Rightarrow> state \<Rightarrow> (error + unit) \<times> state" where
  "create e p s =
     (if dbDown e (tick s) then (Inl MongoNetworkError, called s)
      else if list_ex (\<lambda>q. chain q = chain p) (scanprogress s)
      then (Inl (MongoError 11000 1), called s)
      else (Inr (), (called s)\<lparr>scanprogress := scanprogress s @ [p]\<rparr>))"

text \<open>\<open>progress.save()\<close> writes the in-memory document over the stored one.\<close>

definition save :: "env \<Rightarrow> ScanProgress \<Rightarrow> state \<Rightarrow> (error + unit) \<times> state" where
  "save e p s =
     (if dbDown e (tick s) then (Inl MongoNetworkError, called s)
      else (Inr (),
            (called s)\<lparr>scanprogress := map (\<lambda>q. if chain q = chain p then p else q) (scanprogress s),
                       calls := calls s @ [Save p]\<rparr>))"

section \<open>EventScanner\<close>

definition storeEvents ::
    "env \<Rightarrow> ChainConfig \<Rightarrow> ParsedFeeCollectedEvent list \<Rightarrow> state \<Rightarrow> (error + unit) \<times> state" where
  "storeEvents e cc events s =
     (if events = [] then (Inr (), s)
      else
        (let feeEvents =
               map (\<lambda>event. ParsedFeeCollectedEvent.extend event
                               (FeeEvent.fields (toLowerCase (name cc)))) events
         in case insertMany e feeEvents s of
              (Inr u, s1) \<Rightarrow> (Inr (), s1)
            | (Inl err, s1) \<Rightarrow>
                if code err = Some 11000 then (Inr (), s1) else (Inl err, s1)))"

definition scanBatch ::
    "env \<Rightarrow> ChainConfig \<Rightarrow> int \<Rightarrow> int \<Rightarrow> state \<Rightarrow> (error + int) \<times> state" where
  "scanBatch e cc fromBlock toBlock s =
     (case loadFeeCollectorEvents e fromBlock toBlock s of
        (Inl err, s1) \<Rightarrow> (Inl err, s1)
      | (Inr events, s1) \<Rightarrow>
          if events = [] then (Inr 0, s1\<lparr>calls := calls s1 @ [BatchStored fromBlock toBlock]\<rparr>)
          else
            (case parseFeeCollectorEvents e events s1 of
               (parsedEvents, s2) \<Rightarrow>
                 (case storeEvents e cc parsedEvents s2 of
                    (Inl err, s3) \<Rightarrow> (Inl err, s3)
                  | (Inr u, s3) \<Rightarrow>
                      (Inr (int (length parsedEvents)),
                       s3\<lparr>calls := calls s3 @ [BatchStored fromBlock toBlock]\<rparr>))))"

definition initializeScanProgress :: "env \<Rightarrow> ChainConfig \<Rightarrow> state \<Rightarrow> (error + unit) \<times> state" where
  "initializeScanProgress e cc s =
     (case findOne e (toLowerCase (name cc)) s of
        (Inl err, s1) \<Rightarrow> (Inl err, s1)
      | (Inr (Some existing), s1) \<Rightarrow> (Inr (), s1)
      | (Inr None, s1) \<Rightarrow>
          create e \<lparr>chain = toLowerCase (name cc),
                    lastScannedBlock = startBlock cc - 1,
                    lastScanTime = now s1,
                    totalEventsFound = 0,
                    totalBlocksScanned = 0,
                    updatedAt = now s1\<rparr> s1)"

definition getScanProgress :: "env \<Rightarrow> ChainConfig \<Rightarrow> state \<Rightarrow> (error + ScanProgress) \<times> state" where
  "getScanProgress e cc s =
     (case findOne e (toLowerCase (name cc)) s of
        (Inl err, s1) \<Rightarrow> (Inl err, s1)
      | (Inr None, s1) \<Rightarrow> (Inl (ProgressNotFound (name cc)), s1)
      | (Inr (Some progress), s1) \<Rightarrow> (Inr progress, s1))"

text \<open>
  The variables of one scan cycle that the batch closure reads and writes: the progress
  document in memory and the two totals that \<open>scanForNewEvents\<close> logs at the end
  (named after the keys of that log line, \<open>totalEventsFound\<close> and
  \<open>totalBlocksScanned\<close> being fields of the document).
\<close>

record locals =
  progress :: ScanProgress
  totalEvents :: int
  totalBlocks :: int

text \<open>
  The body of the \<open>try\<close> block of the batch loop up to \<open>progress.save()\<close> and the closure
  handed to \<open>retryWithBackoff\<close> are the same statements: scan the batch, add to the
  totals, update the document in memory, save it.
\<close>

definition processBatch ::
    "env \<Rightarrow> ChainConfig \<Rightarrow> int \<Rightarrow> int \<Rightarrow> locals \<Rightarrow> state \<Rightarrow> (error + unit) \<times> locals \<times> state" where
  "processBatch e cc fromBlock toBlock l s =
     (case scanBatch e cc fromBlock toBlock s of
        (Inl err, s1) \<Rightarrow> (Inl err, l, s1)
      | (Inr eventsCount, s1) \<Rightarrow>
          (let l1 = l\<lparr>totalEvents := totalEvents l + eventsCount,
                      totalBlocks := totalBlocks l + (toBlock - fromBlock + 1),
                      progress := updateProgress toBlock eventsCount (toBlock - fromBlock + 1)
                                    (now s1) (progress l)\<rparr>
           in case save e (progress l1) s1 of
                (Inl err, s2) \<Rightarrow> (Inl err, l1, s2)
              | (Inr u, s2) \<Rightarrow> (Inr (), l1, s2)))"

text \<open>
  \<open>retryWithBackoff\<close>: \<open>for (attempt = 1; attempt <= maxRetries; attempt++)\<close>; the
  function returns normally when the loop ends without having run.
\<close>

function retryWithBackoff ::
    "ScannerConfig \<Rightarrow> (locals \<Rightarrow> state \<Rightarrow> (error + unit) \<times> locals \<times> state) \<Rightarrow> int \<Rightarrow>
     locals \<Rightarrow> state \<Rightarrow> (error + unit) \<times> locals \<times> state" where
  "retryWithBackoff sc operation attempt l s =
     (if attempt \<le> maxRetries sc then
        (case operation l s of
           (Inr u, l1, s1) \<Rightarrow> (Inr (), l1, s1)
         | (Inl err, l1, s1) \<Rightarrow>
             if attempt = maxRetries sc then (Inl err, l1, s1)
             else retryWithBackoff sc operation (attempt + 1) l1
                    (delay (retryDelayMs sc * 2 ^ nat (attempt - 1)) s1))
      else (Inr (), l, s))"
  by pat_completeness auto
termination
  by (relation "measure (\<lambda>(sc, operation, attempt, l, s). nat (maxRetries sc + 1 - attempt))") auto

text \<open>
  The batch loop \<open>while (fromBlock <= currentBlock)\<close>. The first argument bounds the
  number of iterations of the loop body; \<open>None\<close> means the loop has not ended within
  that many.
\<close>

fun scanLoop ::
    "nat \<Rightarrow> env \<Rightarrow> ScannerConfig \<Rightarrow> ChainConfig \<Rightarrow> int \<Rightarrow> int \<Rightarrow> locals \<Rightarrow> state \<Rightarrow>
     ((error + unit) \<times> locals \<times> state) option" where
  "scanLoop 0 e sc cc currentBlock fromBlock l s =
     (if fromBlock \<le> currentBlock then None else Some (Inr (), l, s))"
| "scanLoop (Suc m) e sc cc currentBlock fromBlock l s =
     (if fromBlock \<le> currentBlock then
        (let toBlock = min (fromBlock + batchSize sc - 1) currentBlock in
         case processBatch e cc fromBlock toBlock l s of
           (Inr u, l1, s1) \<Rightarrow>
             scanLoop m e sc cc currentBlock (toBlock + 1) l1
               (if toBlock + 1 \<le> currentBlock then delay 500 s1 else s1)
         | (Inl err, l1, s1) \<Rightarrow>
             (case retryWithBackoff sc (processBatch e cc fromBlock toBlock) 1 l1 s1 of
                (Inl err', l2, s2) \<Rightarrow> Some (Inl err', l2, s2)
              | (Inr u, l2, s2) \<Rightarrow> scanLoop m e sc cc currentBlock (toBlock + 1) l2 s2))
      else Some (Inr (), l, s))"

text \<open>
  \<open>scanForNewEvents\<close>: the guard, then the \<open>try\<close> body; the \<open>catch\<close> rethrows and the
  \<open>finally\<close> clears the flag on every exit of the body.
\<close>

definition scanBody ::
    "nat \<Rightarrow> env \<Rightarrow> ScannerConfig \<Rightarrow> ChainConfig \<Rightarrow> state \<Rightarrow> ((error + unit) \<times> state) option" where
  "scanBody n e sc cc s =
     (case getScanProgress e cc s of
        (Inl err, s1) \<Rightarrow> Some (Inl err, s1)
      | (Inr p, s1) \<Rightarrow>
          (case getCurrentBlockNumber e s1 of
             (Inl err, s2) \<Rightarrow> Some (Inl err, s2)
           | (Inr currentBlock, s2) \<Rightarrow>
               if lastScannedBlock p \<ge> currentBlock then Some (Inr (), s2)
               else
                 (case scanLoop n e sc cc currentBlock (lastScannedBlock p + 1)
                         \<lparr>progress = p, totalEvents = 0, totalBlocks = 0\<rparr> s2 of
                    None \<Rightarrow> None
                  | Some (r, l, s3) \<Rightarrow> Some (r, s3))))"

definition scanForNewEvents ::
    "nat \<Rightarrow> env \<Rightarrow> ScannerConfig \<Rightarrow> ChainConfig \<Rightarrow> state \<Rightarrow> ((error + unit) \<times> state) option" where
  "scanForNewEvents n e sc cc s =
     (if isScanning s then Some (Inr (), s)
      else
        (case scanBody n e sc cc (s\<lparr>isScanning := True\<rparr>) of
           None \<Rightarrow> None
         | Some (r, s1) \<Rightarrow> Some (r, s1\<lparr>isScanning := False\<rparr>)))"

text \<open>
  \<open>start\<close>: everything runs inside one \<open>try\<close> whose \<open>catch\<close> only logs, and an invalid
  contract is answered by a log line and \<open>return\<close>; the two initial scans have their own
  \<open>.catch\<close> that logs. The timer callbacks themselves are not part of the model, only
  that the timer has been set.
\<close>

definition start ::
    "nat \<Rightarrow> env \<Rightarrow> ScannerConfig \<Rightarrow> ChainConfig \<Rightarrow> state \<Rightarrow> ((error + unit) \<times> state) option" where
  "start n e sc cc s =
     (case validateContract e cc s of
        (isValid, s1) \<Rightarrow>
          if \<not> isValid then Some (Inr (), s1)
          else
            (case initializeScanProgress e cc s1 of
               (Inl err, s2) \<Rightarrow> Some (Inr (), s2)
             | (Inr u, s2) \<Rightarrow>
                 (case scanForNewEvents n e sc cc s2 of
                    None \<Rightarrow> None
                  | Some (r3, s3) \<Rightarrow>
                      (case scanForNewEvents n e sc cc s3 of
                         None \<Rightarrow> None
                       | Some (r4, s4) \<Rightarrow> Some (Inr (), s4\<lparr>scanInterval := True\<rparr>)))))"

definition stop :: "state \<Rightarrow> state" where
  "stop s = (if scanInterval s then s\<lparr>scanInterval := False\<rparr> else s)"

declare scanLoop.simps [simp del]
  getCurrentBlockNumberFrom.simps [simp del]
  retryWithBackoff.simps [simp del]

text \<open>
  The periodic trigger of \<open>start\<close>: each firing of the timer calls \<open>scanForNewEvents\<close>
  unless \<open>isScanning\<close> is set and logs a failure. A firing is given by the iteration
  bound and the environment of that cycle.
\<close>

fun periodicScans ::
    "(nat \<times> env) list \<Rightarrow> ScannerConfig \<Rightarrow> ChainConfig \<Rightarrow> state \<Rightarrow> state option" where
  "periodicScans [] sc cc s = Some s"
| "periodicScans ((n, e) # rest) sc cc s =
     (if isScanning s then periodicScans rest sc cc s
      else (case scanForNewEvents n e sc cc s of
              None \<Rightarrow> None
            | Some (r, s1) \<Rightarrow> periodicScans rest sc cc s1))"

section \<open>Notions used in the statements\<close>

text \<open>The stored progress document of the scanner's chain.\<close>

definition progressOf :: "ChainConfig \<Rightarrow> state \<Rightarrow> ScanProgress option" where
  "progressOf cc s = find (\<lambda>p. chain p = toLowerCase (name cc)) (scanprogress s)"

text \<open>
  \<open>advanced ps ps'\<close>: every chain that has a progress document in \<open>ps\<close> has one in
  \<open>ps'\<close> whose \<open>lastScannedBlock\<close> is at least as large. \<open>ahead p ps\<close>: the document
  \<open>p\<close> in memory is not behind the stored document of its chain.
\<close>

definition advanced :: "ScanProgress list \<Rightarrow> ScanProgress list \<Rightarrow> bool" where
  "advanced ps ps' \<longleftrightarrow>
     (\<forall>c q. find (\<lambda>x. chain x = c) ps = Some q \<longrightarrow>
        (\<exists>q'. find (\<lambda>x. chain x = c) ps' = Some q' \<and> lastScannedBlock q \<le> lastScannedBlock q'))"

definition ahead :: "ScanProgress \<Rightarrow> ScanProgress list \<Rightarrow> bool" where
  "ahead p ps \<longleftrightarrow>
     (\<forall>q. find (\<lambda>x. chain x = chain p) ps = Some q \<longrightarrow> lastScannedBlock q \<le> lastScannedBlock p)"

definition mono_inv :: "ScanProgress list \<Rightarrow> locals \<Rightarrow> state \<Rightarrow> bool" where
  "mono_inv ps0 l s \<longleftrightarrow> advanced ps0 (scanprogress s) \<and> ahead (progress l) (scanprogress s)"

text \<open>The cycle variables after a batch of \<open>eventsCount\<close> events has been scanned.\<close>

definition afterBatch :: "int \<Rightarrow> int \<Rightarrow> int \<Rightarrow> int \<Rightarrow> locals \<Rightarrow> locals" where
  "afterBatch fromBlock toBlock eventsCount date l =
     l\<lparr>totalEvents := totalEvents l + eventsCount,
       totalBlocks := totalBlocks l + (toBlock - fromBlock + 1),
       progress := updateProgress toBlock eventsCount (toBlock - fromBlock + 1) date (progress l)\<rparr>"

section \<open>Concrete configurations and environments\<close>

text \<open>
  The chain and scanner configurations of the test suite (with start block 1 and batch
  size 2), an endpoint at height \<open>h\<close> that answers every call and has no events, the same
  endpoint refusing every event query, and an idle scanner over given progress documents.
\<close>

definition polygon :: ChainConfig where
  "polygon = \<lparr>name = ''Polygon'', chainId = 137, rpcUrl = ''https://polygon-rpc.com'',
     contractAddress = ''0xbD6C7B0d2f68c2b7805d88388319cfB6EcB50eA9'', startBlock = 1\<rparr>"

definition smallBatches :: ScannerConfig where
  "smallBatches = \<lparr>batchSize = 2, intervalMs = 5000, maxRetries = 3, retryDelayMs = 1000\<rparr>"

definition quiet :: "int \<Rightarrow> env" where
  "quiet h = \<lparr>getCode = (\<lambda>t a. Inr ''0x6080''), getBlockNumber = (\<lambda>t. Inr h),
      queryFilter = (\<lambda>t a b. Inr []), getBlock = (\<lambda>t b. Inr 0), getAddress = Inr,
      dbDown = (\<lambda>t. False)\<rparr>"

definition rpcFailing :: "int \<Rightarrow> env" where
  "rpcFailing h = (quiet h)\<lparr>queryFilter := (\<lambda>t a b. Inl RpcError)\<rparr>"

definition progressAt :: "int \<Rightarrow> ScanProgress" where
  "progressAt p = \<lparr>chain = ''polygon'', lastScannedBlock = p, lastScanTime = 0,
      totalEventsFound = 0, totalBlocksScanned = 0, updatedAt = 0\<rparr>"

definition idle :: "ScanProgress list \<Rightarrow> state" where
  "idle ps = \<lparr>feeevents = [], scanprogress = ps,
      isScanning = False, scanInterval = False, now = 0, tick = 0, calls = []\<rparr>"

text \<open>The natural key of an event, and a collection that holds no key twice.\<close>

definition naturalKey :: "'a ParsedFeeCollectedEvent_scheme \<Rightarrow> string \<times> int" where
  "naturalKey d = (transactionHash d, logIndex d)"

definition keysDistinct :: "FeeEvent list \<Rightarrow> bool" where
  "keysDistinct coll \<longleftrightarrow> distinct (map naturalKey coll)"

text \<open>
  One \<open>FeesCollected\<close> log of transaction \<open>0xabc123\<close> (the event of the test suite), an
  endpoint that returns it for every range, and a scanner whose store already holds its
  document. An endpoint whose contract address has no code.
\<close>

definition collected :: RawEvent where
  "collected = \<lparr>rawBlockNumber = 1, rawTransactionHash = ''0xabc123'', rawLogIndex = Some 0,
     rawArgs = Some (''0x2791bca1f2de4661ed88a30c99a7a9449aa84174'',
                     ''0x1234567890123456789012345678901234567890'', 1000000, 500000)\<rparr>"

definition oneEvent :: "int \<Rightarrow> env" where
  "oneEvent h = (quiet h)\<lparr>queryFilter := (\<lambda>t a b. Inr [collected])\<rparr>"

definition alreadyStored :: state where
  "alreadyStored = (idle [progressAt 0])
     \<lparr>feeevents := [\<lparr>token = ''0x2791bca1f2de4661ed88a30c99a7a9449aa84174'',
                      integrator = ''0x1234567890123456789012345678901234567890'',
                      integratorFee = 1000000, lifiFee = 500000, blockNumber = 1,
                      transactionHash = ''0xabc123'', logIndex = 0, timestamp = 0,
                      eventChain = ''polygon''\<rparr>]\<rparr>"

definition noCode :: "int \<Rightarrow> env" where
  "noCode h = (quiet h)\<lparr>getCode := (\<lambda>t a. Inr ''0x'')\<rparr>"

definition unreachable :: env where
  "unreachable = (quiet 0)\<lparr>getCode := (\<lambda>t a. Inl RpcError), getBlockNumber := (\<lambda>t. Inl RpcError),
     queryFilter := (\<lambda>t a b. Inl RpcError)\<rparr>"

text \<open>Two decoded events: the one of \<open>collected\<close>, and one of another transaction.\<close>

definition feeA :: ParsedFeeCollectedEvent where
  "feeA = \<lparr>token = ''0x2791bca1f2de4661ed88a30c99a7a9449aa84174'',
            integrator = ''0x1234567890123456789012345678901234567890'',
            integratorFee = 1000000, lifiFee = 500000, blockNumber = 1,
            transactionHash = ''0xabc123'', logIndex = 0, timestamp = 0\<rparr>"

definition feeB :: ParsedFeeCollectedEvent where
  "feeB = feeA\<lparr>transactionHash := ''0xdef456'', logIndex := 1\<rparr>"

text \<open>The ranges of the fetch calls of a history, and the ranges of its completed batches.\<close>

fun fetched :: "call list \<Rightarrow> (int \<times> int) list" where
  "fetched [] = []"
| "fetched (Fetch a b # cs) = (a, b) # fetched cs"
| "fetched (c # cs) = fetched cs"

fun storedRanges :: "call list \<Rightarrow> (int \<times> int) list" where
  "storedRanges [] = []"
| "storedRanges (BatchStored a b # cs) = (a, b) # storedRanges cs"
| "storedRanges (c # cs) = storedRanges cs"

text \<open>
  The partition the specification describes: \<open>[fromBlock, height]\<close> cut into consecutive
  intervals \<open>[from, min (from + width - 1) height]\<close>, in increasing order.
\<close>

function batchPartition :: "int \<Rightarrow> int \<Rightarrow> int \<Rightarrow> (int \<times> int) list" where
  "batchPartition width fromBlock height =
     (if fromBlock \<le> height \<and> 1 \<le> width
      then (fromBlock, min (fromBlock + width - 1) height)
             # batchPartition width (min (fromBlock + width - 1) height + 1) height
      else [])"
  by pat_completeness auto
termination
  by (relation "measure (\<lambda>(width, fromBlock, height). nat (height - fromBlock + 1))") auto

declare batchPartition.simps [simp del]

text \<open>An environment in which no event query and no database call fails.\<close>

definition reliable :: "env \<Rightarrow> bool" where
  "reliable e \<longleftrightarrow> (\<forall>t a b. \<not> isl (queryFilter e t a b)) \<and> (\<forall>t. \<not> dbDown e t)"

text \<open>
  An endpoint whose third answer (the first event query of a cycle on an idle scanner) is
  an error; an endpoint that refuses every query for a range starting at block 1; the
  test configuration with no retries.
\<close>

definition flaky :: "int \<Rightarrow> env" where
  "flaky h = (quiet h)\<lparr>queryFilter := (\<lambda>t a b. if t = 2 then Inl RpcError else Inr [])\<rparr>"

definition firstRangeFails :: "int \<Rightarrow> env" where
  "firstRangeFails h = (quiet h)\<lparr>queryFilter := (\<lambda>t a b. if a = 1 then Inl RpcError else Inr [])\<rparr>"

definition noRetries :: ScannerConfig where
  "noRetries = smallBatches\<lparr>maxRetries := 0\<rparr>"

text \<open>
  \<open>covered rs lo hi\<close>: every block above \<open>lo\<close> and up to \<open>hi\<close> lies in one of the
  ranges \<open>rs\<close>. \<open>progressSafe lo rs cs\<close> reads a call history in order, starting from the
  completed ranges \<open>rs\<close>: at every successful \<open>Save p\<close> the blocks above \<open>lo\<close> and up to
  \<open>lastScannedBlock p\<close> are covered by the batches completed before that save.
\<close>

definition covers :: "(int \<times> int) list \<Rightarrow> int \<Rightarrow> bool" where
  "covers rs b \<longleftrightarrow> list_ex (\<lambda>(f, t). f \<le> b \<and> b \<le> t) rs"

definition covered :: "(int \<times> int) list \<Rightarrow> int \<Rightarrow> int \<Rightarrow> bool" where
  "covered rs lo hi \<longleftrightarrow> list_all (covers rs) [lo + 1..hi]"

fun progressSafe :: "int \<Rightarrow> (int \<times> int) list \<Rightarrow> call list \<Rightarrow> bool" where
  "progressSafe lo rs [] = True"
| "progressSafe lo rs (BatchStored a b # cs) = progressSafe lo (rs @ [(a, b)]) cs"
| "progressSafe lo rs (Save p # cs) =
     (covered rs lo (lastScannedBlock p) \<and> progressSafe lo rs cs)"
| "progressSafe lo rs (c # cs) = progressSafe lo rs cs"

text \<open>The pauses of a history.\<close>

fun delays :: "call list \<Rightarrow> int list" where
  "delays [] = []"
| "delays (Delay ms # cs) = ms # delays cs"
| "delays (c # cs) = delays cs"

text \<open>
  The state of the batch loop for the chain \<open>key\<close>. \<open>head_inv key a\<close>: at the head of the
  loop with \<open>fromBlock = a\<close>, the document in memory and the stored document both stand at
  \<open>a - 1\<close>. \<open>failed_inv key a b\<close>: after a failed attempt at the batch \<open>[a, b]\<close>, the
  stored document still stands at \<open>a - 1\<close> and the last fetch call was for \<open>[a, b]\<close>.
\<close>

definition head_inv :: "string \<Rightarrow> int \<Rightarrow> locals \<Rightarrow> state \<Rightarrow> bool" where
  "head_inv key a l s \<longleftrightarrow>
     chain (progress l) = key \<and> lastScannedBlock (progress l) = a - 1 \<and>
     (\<exists>q. find (\<lambda>x. chain x = key) (scanprogress s) = Some q \<and> lastScannedBlock q = a - 1)"

definition failed_inv :: "string \<Rightarrow> int \<Rightarrow> int \<Rightarrow> locals \<Rightarrow> state \<Rightarrow> bool" where
  "failed_inv key a b l s \<longleftrightarrow>
     a \<le> b \<and> chain (progress l) = key \<and> lastScannedBlock (progress l) \<le> b \<and>
     (\<exists>q. find (\<lambda>x. chain x = key) (scanprogress s) = Some q \<and> lastScannedBlock q = a - 1) \<and>
     fetched (calls s) \<noteq> [] \<and> last (fetched (calls s)) = (a, b)"

text \<open>The \<open>lastScannedBlock\<close> values written by the successful saves of a history.\<close>

fun savedBlocks :: "call list \<Rightarrow> int list" where
  "savedBlocks [] = []"
| "savedBlocks (Save p # cs) = lastScannedBlock p # savedBlocks cs"
| "savedBlocks (c # cs) = savedBlocks cs"

definition saves_inv :: "call list \<Rightarrow> int \<Rightarrow> locals \<Rightarrow> state \<Rightarrow> bool" where
  "saves_inv c0 lo l s \<longleftrightarrow>
     (\<exists>new. calls s = c0 @ new \<and> sorted (lo # savedBlocks new) \<and>
            (\<forall>x \<in> set (lo # savedBlocks new). x \<le> lastScannedBlock (progress l)))"

section \<open>Evaluation rules\<close>

lemmas weak_congs = sum.case_cong_weak prod.case_cong_weak option.case_cong_weak

lemmas store_defs = findOne_def create_def save_def insertMany_def called_def delay_def

lemmas fixture_defs = polygon_def smallBatches_def quiet_def idle_def progressAt_def

lemma toLowerCase_Polygon: "toLowerCase ''Polygon'' = ''polygon''"
  by (simp add: toLowerCase_def char_of_def bit_0)

lemmas run_defs = scanForNewEvents_def scanBody_def getScanProgress_def
  getCurrentBlockNumber_def getCurrentBlockNumberFrom.simps processBatch_def scanBatch_def
  loadFeeCollectorEvents_def storeEvents_def updateProgress_def store_defs Let_def
  scanLoop.simps retryWithBackoff.simps toLowerCase_Polygon

lemma scanLoop_done:
  "\<not> fromBlock \<le> currentBlock \<Longrightarrow>
   scanLoop n e sc cc currentBlock fromBlock l s = Some (Inr (), l, s)"
  by (cases n) (simp_all add: scanLoop.simps)

lemma scanLoop_Suc:
  "fromBlock \<le> currentBlock \<Longrightarrow>
   scanLoop (Suc m) e sc cc currentBlock fromBlock l s =
     (case processBatch e cc fromBlock (min (fromBlock + batchSize sc - 1) currentBlock) l s of
        (Inr u, l1, s1) \<Rightarrow>
          scanLoop m e sc cc currentBlock (min (fromBlock + batchSize sc - 1) currentBlock + 1) l1
            (if min (fromBlock + batchSize sc - 1) currentBlock + 1 \<le> currentBlock
             then delay 500 s1 else s1)
      | (Inl err, l1, s1) \<Rightarrow>
          (case retryWithBackoff sc
                  (processBatch e cc fromBlock (min (fromBlock + batchSize sc - 1) currentBlock))
                  1 l1 s1 of
             (Inl err', l2, s2) \<Rightarrow> Some (Inl err', l2, s2)
           | (Inr u, l2, s2) \<Rightarrow>
               scanLoop m e sc cc currentBlock
                 (min (fromBlock + batchSize sc - 1) currentBlock + 1) l2 s2))"
  by (simp add: scanLoop.simps Let_def)

section \<open>What each operation leaves alone\<close>

lemma updateProgress_chain [simp]: "chain (updateProgress b n k d p) = chain p"
  by (simp add: updateProgress_def)

lemma updateProgress_last [simp]:
  "lastScannedBlock (updateProgress b n k d p) = max (lastScannedBlock p) b"
  by (simp add: updateProgress_def)

lemma loadFeeCollectorEvents_frame:
  "loadFeeCollectorEvents e a b s = (r, s') \<Longrightarrow>
   scanprogress s' = scanprogress s \<and> feeevents s' = feeevents s \<and> isScanning s' = isScanning s"
  by (auto simp: loadFeeCollectorEvents_def called_def Let_def split: sum.splits)

lemma getBlockTimestamp_frame:
  "getBlockTimestamp e b s = (ts, s') \<Longrightarrow>
   scanprogress s' = scanprogress s \<and> feeevents s' = feeevents s \<and> calls s' = calls s"
  by (auto simp: getBlockTimestamp_def called_def split: sum.splits)

lemma parseFeeCollectorEvents_frame:
  "parseFeeCollectorEvents e evs s = (ps, s') \<Longrightarrow>
   scanprogress s' = scanprogress s \<and> feeevents s' = feeevents s \<and> calls s' = calls s"
proof (induction evs arbitrary: s ps s')
  case Nil
  then show ?case by simp
next
  case (Cons ev evs)
  show ?case
  proof (cases "rawArgs ev")
    case None
    then show ?thesis using Cons by simp
  next
    case (Some args)
    obtain a0 a1 a2 a3 where args: "args = (a0, a1, a2, a3)" by (cases args) auto
    show ?thesis
    proof (cases "a0 = [] \<or> a1 = []")
      case True
      then show ?thesis using Cons Some args by auto
    next
      case False
      obtain ts s1 where g: "getBlockTimestamp e (rawBlockNumber ev) s = (ts, s1)"
        by (cases "getBlockTimestamp e (rawBlockNumber ev) s")
      obtain rest s2 where p: "parseFeeCollectorEvents e evs s1 = (rest, s2)"
        by (cases "parseFeeCollectorEvents e evs s1")
      have s2: "scanprogress s2 = scanprogress s1 \<and> feeevents s2 = feeevents s1 \<and> calls s2 = calls s1"
        using Cons.IH [OF p] .
      have "s' = s2"
        using Cons.prems Some args False g p
        by (auto split: sum.splits)
      then show ?thesis using s2 getBlockTimestamp_frame [OF g] by simp
    qed
  qed
qed

lemma storeEvents_frame:
  "storeEvents e cc evs s = (r, s') \<Longrightarrow> scanprogress s' = scanprogress s \<and> calls s' = calls s"
  by (auto simp: storeEvents_def insertMany_def called_def Let_def split: if_splits prod.splits)


lemma save_frame:
  "save e p s = (r, s') \<Longrightarrow> feeevents s' = feeevents s \<and> isScanning s' = isScanning s"
  by (auto simp: save_def called_def split: if_splits)

lemma scanBatch_cases [consumes 1, case_names load_failed empty store_failed stored]:
  assumes "scanBatch e cc a b s = (r, s')"
  obtains
    err s1 where "loadFeeCollectorEvents e a b s = (Inl err, s1)" "r = Inl err" "s' = s1"
  | s1 where "loadFeeCollectorEvents e a b s = (Inr [], s1)" "r = Inr 0"
      "s' = s1\<lparr>calls := calls s1 @ [BatchStored a b]\<rparr>"
  | raws s1 ps s2 err s3 where "loadFeeCollectorEvents e a b s = (Inr raws, s1)" "raws \<noteq> []"
      "parseFeeCollectorEvents e raws s1 = (ps, s2)" "storeEvents e cc ps s2 = (Inl err, s3)"
      "r = Inl err" "s' = s3"
  | raws s1 ps s2 s3 where "loadFeeCollectorEvents e a b s = (Inr raws, s1)" "raws \<noteq> []"
      "parseFeeCollectorEvents e raws s1 = (ps, s2)" "storeEvents e cc ps s2 = (Inr (), s3)"
      "r = Inr (int (length ps))" "s' = s3\<lparr>calls := calls s3 @ [BatchStored a b]\<rparr>"
proof -
  obtain r1 s1 where l: "loadFeeCollectorEvents e a b s = (r1, s1)"
    by (cases "loadFeeCollectorEvents e a b s")
  show thesis
  proof (cases r1)
    case (Inl err)
    then show thesis using assms l that(1) by (simp add: scanBatch_def)
  next
    case (Inr raws)
    show thesis
    proof (cases "raws = []")
      case True
      then show thesis using assms l Inr that(2) by (simp add: scanBatch_def)
    next
      case False
      obtain ps s2 where p: "parseFeeCollectorEvents e raws s1 = (ps, s2)"
        by (cases "parseFeeCollectorEvents e raws s1")
      obtain r3 s3 where st: "storeEvents e cc ps s2 = (r3, s3)"
        by (cases "storeEvents e cc ps s2")
      show thesis
      proof (cases r3)
        case (Inl err)
        then show thesis using assms l Inr False p st that(3) by (simp add: scanBatch_def)
      next
        case r3: (Inr u)
        then show thesis using assms l Inr False p st that(4) by (simp add: scanBatch_def)
      qed
    qed
  qed
qed

lemma scanBatch_scanprogress:
  assumes "scanBatch e cc a b s = (r, s')"
  shows "scanprogress s' = scanprogress s"
  using assms
proof (cases rule: scanBatch_cases)
  case (load_failed err s1)
  then show ?thesis using loadFeeCollectorEvents_frame by blast
next
  case (empty s1)
  then show ?thesis using loadFeeCollectorEvents_frame [OF empty(1)] by simp
next
  case (store_failed raws s1 ps s2 err s3)
  then show ?thesis
    using loadFeeCollectorEvents_frame [OF store_failed(1)]
      parseFeeCollectorEvents_frame [OF store_failed(3)] storeEvents_frame [OF store_failed(4)]
    by simp
next
  case (stored raws s1 ps s2 s3)
  then show ?thesis
    using loadFeeCollectorEvents_frame [OF stored(1)]
      parseFeeCollectorEvents_frame [OF stored(3)] storeEvents_frame [OF stored(4)]
    by simp
qed

lemma processBatch_alt:
  "processBatch e cc a b l s =
     (case scanBatch e cc a b s of
        (Inl err, s1) \<Rightarrow> (Inl err, l, s1)
      | (Inr n, s1) \<Rightarrow>
          (case save e (progress (afterBatch a b n (now s1) l)) s1 of
             (Inl err, s2) \<Rightarrow> (Inl err, afterBatch a b n (now s1) l, s2)
           | (Inr u, s2) \<Rightarrow> (Inr (), afterBatch a b n (now s1) l, s2)))"
  unfolding processBatch_def afterBatch_def Let_def by (rule refl)

lemma processBatch_cases [consumes 1, case_names scan_failed save_failed saved]:
  assumes "processBatch e cc a b l s = (r, l', s')"
  obtains
    err s1 where "scanBatch e cc a b s = (Inl err, s1)" "r = Inl err" "l' = l" "s' = s1"
  | n s1 err s2 where "scanBatch e cc a b s = (Inr n, s1)" "l' = afterBatch a b n (now s1) l"
      "save e (progress (afterBatch a b n (now s1) l)) s1 = (Inl err, s2)" "r = Inl err" "s' = s2"
  | n s1 s2 where "scanBatch e cc a b s = (Inr n, s1)" "l' = afterBatch a b n (now s1) l"
      "save e (progress (afterBatch a b n (now s1) l)) s1 = (Inr (), s2)" "r = Inr ()" "s' = s2"
proof -
  obtain r1 s1 where sb: "scanBatch e cc a b s = (r1, s1)"
    by (cases "scanBatch e cc a b s")
  show thesis
  proof (cases r1)
    case (Inl err)
    then show thesis using assms sb that(1) by (simp add: processBatch_alt)
  next
    case (Inr n)
    obtain r2 s2 where sv: "save e (progress (afterBatch a b n (now s1) l)) s1 = (r2, s2)"
      by (cases "save e (progress (afterBatch a b n (now s1) l)) s1")
    show thesis
    proof (cases r2)
      case (Inl err)
      have "(r, l', s') = (Inl err, afterBatch a b n (now s1) l, s2)"
        using assms by (simp add: processBatch_alt sb Inr sv Inl)
      then have "r = Inl err" "l' = afterBatch a b n (now s1) l" "s' = s2" by simp_all
      then show thesis using that(2) sb sv Inr Inl by auto
    next
      case r2: (Inr u)
      have "(r, l', s') = (Inr (), afterBatch a b n (now s1) l, s2)"
        using assms by (simp add: processBatch_alt sb Inr sv r2)
      then have "r = Inr ()" "l' = afterBatch a b n (now s1) l" "s' = s2" by simp_all
      then show thesis using that(3) sb sv Inr r2 by auto
    qed
  qed
qed

lemma getCurrentBlockNumberFrom_frame:
  "getCurrentBlockNumberFrom e maxR attempt s = (r, s') \<Longrightarrow>
   scanprogress s' = scanprogress s \<and> feeevents s' = feeevents s \<and> isScanning s' = isScanning s"
proof (induction e maxR attempt s rule: getCurrentBlockNumberFrom.induct)
  case (1 e maxR attempt s)
  show ?case
  proof (cases "attempt \<le> maxR")
    case False
    then show ?thesis using "1.prems" by (simp add: getCurrentBlockNumberFrom.simps)
  next
    case True
    show ?thesis
    proof (cases "getBlockNumber e (tick s)")
      case (Inr h)
      then show ?thesis using "1.prems" True
        by (auto simp: getCurrentBlockNumberFrom.simps [of e maxR attempt] called_def)
    next
      case (Inl err)
      show ?thesis
      proof (cases "attempt = maxR")
        case last: True
        have "getCurrentBlockNumberFrom e maxR attempt s = (Inl (BlockNumberFailed maxR), called s)"
          by (subst getCurrentBlockNumberFrom.simps) (simp add: True Inl last)
        then show ?thesis using "1.prems" by (auto simp: called_def)
      next
        case more: False
        have rec: "getCurrentBlockNumberFrom e maxR (attempt + 1)
                     (delay (1000 * attempt) (called s)) = (r, s')"
          using "1.prems" True Inl more
          by (simp add: getCurrentBlockNumberFrom.simps [of e maxR attempt])
        show ?thesis using "1.IH" [OF True Inl more rec]
          by (simp add: delay_def called_def)
      qed
    qed
  qed
qed

lemma getScanProgress_frame:
  "getScanProgress e cc s = (r, s') \<Longrightarrow>
   scanprogress s' = scanprogress s \<and> feeevents s' = feeevents s \<and> isScanning s' = isScanning s \<and> calls s' = calls s"
  by (auto simp: getScanProgress_def findOne_def called_def split: if_splits option.splits)

lemma getScanProgress_found:
  "getScanProgress e cc s = (Inr p, s') \<Longrightarrow>
   find (\<lambda>x. chain x = toLowerCase (name cc)) (scanprogress s) = Some p"
  by (auto simp: getScanProgress_def findOne_def called_def split: if_splits option.splits)

section \<open>Invariants of the retry loop and of the batch loop\<close>

lemma retryWithBackoff_invariant:
  "(\<And>l s r l' s'. Q l s \<Longrightarrow> operation l s = (r, l', s') \<Longrightarrow> Q l' s') \<Longrightarrow>
   (\<And>ms l s. Q l s \<Longrightarrow> Q l (delay ms s)) \<Longrightarrow>
   Q l s \<Longrightarrow> retryWithBackoff sc operation attempt l s = (r, l', s') \<Longrightarrow> Q l' s'"
proof (induction sc operation attempt l s rule: retryWithBackoff.induct)
  case (1 sc operation attempt l s)
  note step = "1.prems"(1) and pause = "1.prems"(2) and q = "1.prems"(3) and run = "1.prems"(4)
  show ?case
  proof (cases "attempt \<le> maxRetries sc")
    case False
    then show ?thesis using run q by (simp add: retryWithBackoff.simps)
  next
    case True
    obtain r1 l1 s1 where op: "operation l s = (r1, l1, s1)"
      by (cases "operation l s") auto
    have q1: "Q l1 s1" using step [OF q op] .
    show ?thesis
    proof (cases r1)
      case (Inr u)
      then show ?thesis using run True op q1
        by (simp add: retryWithBackoff.simps [of sc operation attempt])
    next
      case (Inl err)
      show ?thesis
      proof (cases "attempt = maxRetries sc")
        case last: True
        have "retryWithBackoff sc operation attempt l s = (Inl err, l1, s1)"
          by (subst retryWithBackoff.simps) (simp add: True op Inl last)
        then show ?thesis using run q1 by simp
      next
        case more: False
        have rec: "retryWithBackoff sc operation (attempt + 1) l1
                     (delay (retryDelayMs sc * 2 ^ nat (attempt - 1)) s1) = (r, l', s')"
          using run True op Inl more
          by (simp add: retryWithBackoff.simps [of sc operation attempt])
        show ?thesis
          by (rule "1.IH" [OF True op [symmetric] Inl refl more step pause pause [OF q1] rec])
      qed
    qed
  qed
qed


lemma scanLoop_invariant:
  assumes step: "\<And>a b l s r l' s'. Q l s \<Longrightarrow> processBatch e cc a b l s = (r, l', s') \<Longrightarrow> Q l' s'"
    and pause: "\<And>ms l s. Q l s \<Longrightarrow> Q l (delay ms s)"
  shows "Q l s \<Longrightarrow> scanLoop n e sc cc currentBlock fromBlock l s = Some (r, l', s') \<Longrightarrow> Q l' s'"
proof (induction n arbitrary: fromBlock l s)
  case 0
  then show ?case by (cases "fromBlock \<le> currentBlock") (simp_all add: scanLoop.simps)
next
  case (Suc m)
  show ?case
  proof (cases "fromBlock \<le> currentBlock")
    case False
    then show ?thesis using Suc.prems by (simp add: scanLoop_done)
  next
    case True
    define toBlock where "toBlock = min (fromBlock + batchSize sc - 1) currentBlock"
    obtain r1 l1 s1 where pb: "processBatch e cc fromBlock toBlock l s = (r1, l1, s1)"
      by (cases "processBatch e cc fromBlock toBlock l s") auto
    have q1: "Q l1 s1" using step [OF Suc.prems(1) pb] .
    show ?thesis
    proof (cases r1)
      case (Inr u)
      have rec: "scanLoop m e sc cc currentBlock (toBlock + 1) l1
                   (if toBlock + 1 \<le> currentBlock then delay 500 s1 else s1) = Some (r, l', s')"
        using Suc.prems(2) pb Inr by (simp add: scanLoop_Suc [OF True] toBlock_def [symmetric])
      have "Q l1 (if toBlock + 1 \<le> currentBlock then delay 500 s1 else s1)"
        using q1 pause by simp
      then show ?thesis using Suc.IH rec by blast
    next
      case (Inl err)
      obtain r2 l2 s2 where rb:
        "retryWithBackoff sc (processBatch e cc fromBlock toBlock) 1 l1 s1 = (r2, l2, s2)"
        by (cases "retryWithBackoff sc (processBatch e cc fromBlock toBlock) 1 l1 s1") auto
      have q2: "Q l2 s2"
        by (rule retryWithBackoff_invariant [where Q = Q, OF step pause q1 rb])
      show ?thesis
      proof (cases r2)
        case err2: (Inl err')
        then have "(r, l', s') = (Inl err', l2, s2)"
          using Suc.prems(2) pb Inl rb by (simp add: scanLoop_Suc [OF True] toBlock_def [symmetric])
        then show ?thesis using q2 by simp
      next
        case (Inr u)
        then have rec: "scanLoop m e sc cc currentBlock (toBlock + 1) l2 s2 = Some (r, l', s')"
          using Suc.prems(2) pb Inl rb by (simp add: scanLoop_Suc [OF True] toBlock_def [symmetric])
        show ?thesis using Suc.IH [OF q2 rec] .
      qed
    qed
  qed
qed

section \<open>The batch loop ends\<close>

lemma scanLoop_ends:
  "1 \<le> batchSize sc \<Longrightarrow> nat (currentBlock - fromBlock + 1) \<le> n \<Longrightarrow>
   scanLoop n e sc cc currentBlock fromBlock l s \<noteq> None"
proof (induction n arbitrary: fromBlock l s)
  case 0
  then show ?case by (simp add: scanLoop_done)
next
  case (Suc m)
  show ?case
  proof (cases "fromBlock \<le> currentBlock")
    case False
    then show ?thesis by (simp add: scanLoop_done)
  next
    case True
    define toBlock where "toBlock = min (fromBlock + batchSize sc - 1) currentBlock"
    have "fromBlock \<le> toBlock" using True Suc.prems(1) by (simp add: toBlock_def)
    then have le: "nat (currentBlock - (toBlock + 1) + 1) \<le> m"
      using Suc.prems(2) by linarith
    have ih: "\<And>l s. scanLoop m e sc cc currentBlock (toBlock + 1) l s \<noteq> None"
      using Suc.IH [OF Suc.prems(1) le] .
    obtain r l1 s1 where pb: "processBatch e cc fromBlock toBlock l s = (r, l1, s1)"
      by (cases "processBatch e cc fromBlock toBlock l s") auto
    show ?thesis
    proof (cases r)
      case (Inr u)
      then show ?thesis
        using ih pb by (simp add: scanLoop_Suc [OF True] toBlock_def [symmetric])
    next
      case (Inl err)
      obtain r' l2 s2 where rb:
        "retryWithBackoff sc (processBatch e cc fromBlock toBlock) 1 l1 s1 = (r', l2, s2)"
        by (cases "retryWithBackoff sc (processBatch e cc fromBlock toBlock) 1 l1 s1") auto
      show ?thesis
        using ih pb rb Inl
        by (cases r') (simp_all add: scanLoop_Suc [OF True] toBlock_def [symmetric])
    qed
  qed
qed

lemma scanBody_ends:
  assumes b: "1 \<le> batchSize sc"
  shows "\<exists>n. scanBody n e sc cc s \<noteq> None"
proof -
  obtain r1 s1 where g: "getScanProgress e cc s = (r1, s1)"
    by (cases "getScanProgress e cc s")
  show ?thesis
  proof (cases r1)
    case (Inl a)
    then show ?thesis using g by (simp add: scanBody_def)
  next
    case p: (Inr p)
    obtain r2 s2 where h: "getCurrentBlockNumber e s1 = (r2, s2)"
      by (cases "getCurrentBlockNumber e s1")
    show ?thesis
    proof (cases r2)
      case (Inl a)
      then show ?thesis using g h p by (simp add: scanBody_def)
    next
      case (Inr cb)
      let ?n = "nat (cb - (lastScannedBlock p + 1) + 1)"
      have "scanLoop ?n e sc cc cb (lastScannedBlock p + 1)
              \<lparr>progress = p, totalEvents = 0, totalBlocks = 0\<rparr> s2 \<noteq> None"
        by (rule scanLoop_ends [OF b]) simp
      then have "scanBody ?n e sc cc s \<noteq> None"
        using g h p Inr by (auto simp: scanBody_def)
      then show ?thesis ..
    qed
  qed
qed

lemma scanForNewEvents_ends:
  assumes b: "1 \<le> batchSize sc"
  shows "\<exists>n r s'. scanForNewEvents n e sc cc s = Some (r, s')"
proof (cases "isScanning s")
  case True
  then show ?thesis by (simp add: scanForNewEvents_def)
next
  case False
  obtain n where "scanBody n e sc cc (s\<lparr>isScanning := True\<rparr>) \<noteq> None"
    using scanBody_ends [OF b] by blast
  then obtain r s1 where "scanBody n e sc cc (s\<lparr>isScanning := True\<rparr>) = Some (r, s1)"
    by auto
  then have "scanForNewEvents n e sc cc s = Some (r, s1\<lparr>isScanning := False\<rparr>)"
    using False by (simp add: scanForNewEvents_def)
  then show ?thesis by blast
qed

section \<open>The call history of a batch\<close>

lemma fetched_append [simp]: "fetched (xs @ ys) = fetched xs @ fetched ys"
  by (induction xs rule: fetched.induct) auto

lemma storedRanges_append [simp]: "storedRanges (xs @ ys) = storedRanges xs @ storedRanges ys"
  by (induction xs rule: storedRanges.induct) auto

lemma loadFeeCollectorEvents_calls:
  "loadFeeCollectorEvents e a b s = (r, s') \<Longrightarrow> calls s' = calls s @ [Fetch a b]"
  by (auto simp: loadFeeCollectorEvents_def called_def Let_def split: sum.splits)

lemma scanBatch_calls:
  assumes "scanBatch e cc a b s = (r, s')"
  shows "calls s' = calls s @ (if isl r then [Fetch a b] else [Fetch a b, BatchStored a b])"
  using assms
proof (cases rule: scanBatch_cases)
  case (load_failed err s1)
  then show ?thesis using loadFeeCollectorEvents_calls [OF load_failed(1)] by simp
next
  case (empty s1)
  then show ?thesis using loadFeeCollectorEvents_calls [OF empty(1)] by simp
next
  case (store_failed raws s1 ps s2 err s3)
  then show ?thesis
    using loadFeeCollectorEvents_calls [OF store_failed(1)]
      parseFeeCollectorEvents_frame [OF store_failed(3)] storeEvents_frame [OF store_failed(4)]
    by simp
next
  case (stored raws s1 ps s2 s3)
  then show ?thesis
    using loadFeeCollectorEvents_calls [OF stored(1)]
      parseFeeCollectorEvents_frame [OF stored(3)] storeEvents_frame [OF stored(4)]
    by simp
qed

lemma save_calls:
  "save e p s = (r, s') \<Longrightarrow> calls s' = calls s @ (if isl r then [] else [Save p])"
  by (auto simp: save_def called_def split: if_splits)

lemma processBatch_calls:
  assumes "processBatch e cc a b l s = (r, l', s')"
  shows "(r = Inr () \<and> calls s' = calls s @ [Fetch a b, BatchStored a b, Save (progress l')] \<and>
            lastScannedBlock (progress l') = max (lastScannedBlock (progress l)) b) \<or>
         (isl r \<and> l' = l \<and> calls s' = calls s @ [Fetch a b]) \<or>
         (isl r \<and> calls s' = calls s @ [Fetch a b, BatchStored a b] \<and>
            lastScannedBlock (progress l') = max (lastScannedBlock (progress l)) b)"
  using assms
proof (cases rule: processBatch_cases)
  case (scan_failed err s1)
  then show ?thesis using scanBatch_calls [OF scan_failed(1)] by simp
next
  case (save_failed n s1 err s2)
  then show ?thesis
    using scanBatch_calls [OF save_failed(1)] save_calls [OF save_failed(3)]
    by (simp add: afterBatch_def)
next
  case (saved n s1 s2)
  then show ?thesis
    using scanBatch_calls [OF saved(1)] save_calls [OF saved(3)]
    by (simp add: afterBatch_def)
qed

lemma getCurrentBlockNumberFrom_calls:
  "getCurrentBlockNumberFrom e maxR attempt s = (r, s') \<Longrightarrow>
   \<exists>ds. calls s' = calls s @ map Delay ds"
proof (induction e maxR attempt s rule: getCurrentBlockNumberFrom.induct)
  case (1 e maxR attempt s)
  show ?case
  proof (cases "attempt \<le> maxR")
    case False
    then have "s' = s" using "1.prems" by (simp add: getCurrentBlockNumberFrom.simps)
    then show ?thesis by (intro exI [of _ "[]"]) simp
  next
    case True
    show ?thesis
    proof (cases "getBlockNumber e (tick s)")
      case (Inr h)
      then have "s' = called s" using "1.prems" True
        by (auto simp: getCurrentBlockNumberFrom.simps [of e maxR attempt])
      then show ?thesis by (intro exI [of _ "[]"]) (simp add: called_def)
    next
      case (Inl err)
      show ?thesis
      proof (cases "attempt = maxR")
        case last: True
        have "getCurrentBlockNumberFrom e maxR attempt s = (Inl (BlockNumberFailed maxR), called s)"
          by (subst getCurrentBlockNumberFrom.simps) (simp add: True Inl last)
        then have "s' = called s" using "1.prems" by simp
        then show ?thesis by (intro exI [of _ "[]"]) (simp add: called_def)
      next
        case more: False
        have rec: "getCurrentBlockNumberFrom e maxR (attempt + 1)
                     (delay (1000 * attempt) (called s)) = (r, s')"
          using "1.prems" True Inl more
          by (simp add: getCurrentBlockNumberFrom.simps [of e maxR attempt])
        obtain ds where "calls s' = calls (delay (1000 * attempt) (called s)) @ map Delay ds"
          using "1.IH" [OF True Inl more rec] by blast
        then have "calls s' = calls s @ map Delay ((1000 * attempt) # ds)"
          by (simp add: delay_def called_def)
        then show ?thesis by blast
      qed
    qed
  qed
qed

lemma fetched_Delays [simp]: "fetched (map Delay ds) = []"
  by (induction ds) auto

lemma storedRanges_Delays [simp]: "storedRanges (map Delay ds) = []"
  by (induction ds) auto

lemma getCurrentBlockNumber_fetched:
  assumes "getCurrentBlockNumber e s = (r, s')"
  shows "fetched (calls s') = fetched (calls s)"
proof -
  obtain ds where "calls s' = calls s @ map Delay ds"
    using getCurrentBlockNumberFrom_calls assms unfolding getCurrentBlockNumber_def by blast
  then show ?thesis by simp
qed

section \<open>Progress never moves backwards\<close>

lemma find_snoc_new:
  "find P xs = None \<Longrightarrow> find P (xs @ [x]) = (if P x then Some x else None)"
  by (induction xs) (auto split: if_splits)

lemma advanced_refl: "advanced ps ps"
  by (simp add: advanced_def)

lemma advanced_trans: "advanced a b \<Longrightarrow> advanced b c \<Longrightarrow> advanced a c"
  unfolding advanced_def by (meson order_trans)

lemma find_map_same:
  "(\<And>x. P (f x) = P x) \<Longrightarrow> find P (map f xs) = map_option f (find P xs)"
  by (induction xs) auto

lemma find_Some_holds: "find P xs = Some x \<Longrightarrow> P x"
  by (induction xs) (auto split: if_splits)

lemma save_advanced:
  assumes "ahead p ps"
  shows "advanced ps (map (\<lambda>q. if chain q = chain p then p else q) ps)"
  unfolding advanced_def
proof (intro allI impI)
  fix c q
  assume f: "find (\<lambda>x. chain x = c) ps = Some q"
  let ?f = "\<lambda>q. if chain q = chain p then p else q"
  have "find (\<lambda>x. chain x = c) (map ?f ps) = map_option ?f (find (\<lambda>x. chain x = c) ps)"
    by (rule find_map_same) simp
  then have m: "find (\<lambda>x. chain x = c) (map ?f ps) = Some (?f q)" using f by simp
  have cq: "chain q = c" using find_Some_holds [OF f] .
  show "\<exists>q'. find (\<lambda>x. chain x = c) (map ?f ps) = Some q' \<and> lastScannedBlock q \<le> lastScannedBlock q'"
  proof (cases "c = chain p")
    case True
    then have "lastScannedBlock q \<le> lastScannedBlock p" using assms f by (simp add: ahead_def)
    then show ?thesis using m cq True by simp
  next
    case False
    then show ?thesis using m cq by simp
  qed
qed

lemma save_ahead:
  "ahead p (map (\<lambda>q. if chain q = chain p then p else q) ps)"
  unfolding ahead_def
proof (intro allI impI)
  fix q
  let ?f = "\<lambda>q. if chain q = chain p then p else q"
  assume f: "find (\<lambda>x. chain x = chain p) (map ?f ps) = Some q"
  have "find (\<lambda>x. chain x = chain p) (map ?f ps) = map_option ?f (find (\<lambda>x. chain x = chain p) ps)"
    by (rule find_map_same) simp
  then have "map_option ?f (find (\<lambda>x. chain x = chain p) ps) = Some q"
    using f by simp
  then obtain q0 where q0: "find (\<lambda>x. chain x = chain p) ps = Some q0" "q = ?f q0"
    by (cases "find (\<lambda>x. chain x = chain p) ps") auto
  have "chain q0 = chain p" using find_Some_holds [OF q0(1)] .
  then show "lastScannedBlock q \<le> lastScannedBlock p" using q0(2) by simp
qed

lemma ahead_afterBatch:
  "ahead (progress l) ps \<Longrightarrow> ahead (progress (afterBatch a b n d l)) ps"
  by (auto simp: ahead_def afterBatch_def)

lemma processBatch_mono_inv:
  assumes "mono_inv ps0 l s" "processBatch e cc a b l s = (r, l', s')"
  shows "mono_inv ps0 l' s'"
  using assms(2)
proof (cases rule: processBatch_cases)
  case (scan_failed err s1)
  then show ?thesis using assms(1) scanBatch_scanprogress [OF scan_failed(1)]
    by (simp add: mono_inv_def)
next
  case (save_failed n s1 err s2)
  have "scanprogress s2 = scanprogress s1"
    using save_failed(3) by (auto simp: save_def called_def split: if_splits)
  then show ?thesis
    using assms(1) scanBatch_scanprogress [OF save_failed(1)] save_failed(2,5)
    by (simp add: mono_inv_def ahead_afterBatch)
next
  case (saved n s1 s2)
  let ?p = "progress (afterBatch a b n (now s1) l)"
  have sp: "scanprogress s2 = map (\<lambda>q. if chain q = chain ?p then ?p else q) (scanprogress s1)"
    using saved(3) by (auto simp: save_def called_def split: if_splits)
  have s1: "scanprogress s1 = scanprogress s" using scanBatch_scanprogress [OF saved(1)] .
  have ah: "ahead ?p (scanprogress s)" using assms(1) by (simp add: mono_inv_def ahead_afterBatch)
  have "advanced (scanprogress s) (scanprogress s2)"
    unfolding sp s1 using ah by (rule save_advanced)
  moreover have "ahead ?p (scanprogress s2)" unfolding sp by (rule save_ahead)
  ultimately show ?thesis
    using assms(1) saved(2,5) advanced_trans by (auto simp: mono_inv_def)
qed

lemma delay_mono_inv: "mono_inv ps0 l s \<Longrightarrow> mono_inv ps0 l (delay ms s)"
  by (simp add: mono_inv_def delay_def)

lemma scanBody_advanced:
  assumes "scanBody n e sc cc s = Some (r, s')"
  shows "advanced (scanprogress s) (scanprogress s')"
proof -
  obtain r1 s1 where g: "getScanProgress e cc s = (r1, s1)"
    by (cases "getScanProgress e cc s")
  have f1: "scanprogress s1 = scanprogress s" using getScanProgress_frame [OF g] by simp
  show ?thesis
  proof (cases r1)
    case (Inl err)
    then show ?thesis using assms g f1 by (auto simp: scanBody_def advanced_refl)
  next
    case p: (Inr p)
    obtain r2 s2 where h: "getCurrentBlockNumber e s1 = (r2, s2)"
      by (cases "getCurrentBlockNumber e s1")
    have f2: "scanprogress s2 = scanprogress s"
      using getCurrentBlockNumberFrom_frame [OF h [unfolded getCurrentBlockNumber_def]] f1 by simp
    show ?thesis
    proof (cases r2)
      case (Inl err)
      then show ?thesis using assms g p h f2 by (auto simp: scanBody_def advanced_refl)
    next
      case (Inr cb)
      show ?thesis
      proof (cases "lastScannedBlock p \<ge> cb")
        case True
        then show ?thesis using assms g p h Inr f2 by (auto simp: scanBody_def advanced_refl)
      next
        case False
        let ?l = "\<lparr>progress = p, totalEvents = 0, totalBlocks = 0\<rparr>"
        obtain l3 where loop:
          "scanLoop n e sc cc cb (lastScannedBlock p + 1) ?l s2 = Some (r, l3, s')"
          using assms g p h Inr False by (auto simp: scanBody_def split: option.splits)
        have "find (\<lambda>x. chain x = chain p) (scanprogress s) = Some p"
          using getScanProgress_found [OF g [unfolded p]] find_Some_holds by fastforce
        then have init: "mono_inv (scanprogress s) ?l s2"
          using f2 by (simp add: mono_inv_def advanced_refl ahead_def)
        have "mono_inv (scanprogress s) l3 s'"
          by (rule scanLoop_invariant [where Q = "mono_inv (scanprogress s)",
                OF processBatch_mono_inv delay_mono_inv init loop])
        then show ?thesis by (simp add: mono_inv_def)
      qed
    qed
  qed
qed

lemma scanForNewEvents_advanced:
  assumes "scanForNewEvents n e sc cc s = Some (r, s')"
  shows "advanced (scanprogress s) (scanprogress s')"
proof (cases "isScanning s")
  case True
  then show ?thesis using assms by (auto simp: scanForNewEvents_def advanced_refl)
next
  case False
  then obtain s1 where b: "scanBody n e sc cc (s\<lparr>isScanning := True\<rparr>) = Some (r, s1)"
    and s': "s' = s1\<lparr>isScanning := False\<rparr>"
    using assms by (auto simp: scanForNewEvents_def split: option.splits)
  show ?thesis using scanBody_advanced [OF b] s' by simp
qed

lemma periodicScans_advanced:
  "periodicScans runs sc cc s = Some s' \<Longrightarrow> advanced (scanprogress s) (scanprogress s')"
proof (induction runs arbitrary: s)
  case Nil
  then show ?case by (simp add: advanced_refl)
next
  case (Cons run runs)
  obtain n e where run: "run = (n, e)" by (cases run)
  show ?case
  proof (cases "isScanning s")
    case True
    then show ?thesis using Cons run by simp
  next
    case False
    then obtain r s1 where one: "scanForNewEvents n e sc cc s = Some (r, s1)"
      and rest: "periodicScans runs sc cc s1 = Some s'"
      using Cons.prems run by (auto split: option.splits)
    show ?thesis
      using advanced_trans [OF scanForNewEvents_advanced [OF one] Cons.IH [OF rest]] .
  qed
qed

section \<open>The re-entrancy guard\<close>

text \<open>
  C7. A call of \<open>scanForNewEvents\<close> made while \<open>isScanning\<close> is set returns at once and
  without error, and the state it returns is the state it was given: no fetch call is
  added to the call history, neither collection changes, the flag stays set.
\<close>

theorem reentrant_scan_is_noop:
  "isScanning s \<Longrightarrow> scanForNewEvents n e sc cc s = Some (Inr (), s)"
  by (simp add: scanForNewEvents_def)

theorem reentrant_scan_is_noop_witness:
  "isScanning ((idle [progressAt 0])\<lparr>isScanning := True\<rparr>) \<and>
   scanForNewEvents 0 (quiet 5) smallBatches polygon ((idle [progressAt 0])\<lparr>isScanning := True\<rparr>)
     = Some (Inr (), (idle [progressAt 0])\<lparr>isScanning := True\<rparr>)"
proof -
  have h: "isScanning ((idle [progressAt 0])\<lparr>isScanning := True\<rparr>)" by simp
  show ?thesis
    using h reentrant_scan_is_noop [OF h, of 0 "quiet 5" smallBatches polygon] by simp
qed

section \<open>The guard is released on every exit\<close>

text \<open>
  C10. A call of \<open>scanForNewEvents\<close> that starts with \<open>isScanning\<close> clear ends with
  \<open>isScanning\<close> clear, whether it returns normally or with an error; and with a batch
  size of at least one the call does end: some bound on the number of loop iterations
  gives a result.
\<close>

theorem scan_releases_guard:
  assumes "\<not> isScanning s"
  shows "(\<forall>n r s'. scanForNewEvents n e sc cc s = Some (r, s') \<longrightarrow> \<not> isScanning s') \<and>
         (1 \<le> batchSize sc \<longrightarrow> (\<exists>n r s'. scanForNewEvents n e sc cc s = Some (r, s')))"
proof (intro conjI allI impI)
  fix n r s'
  assume "scanForNewEvents n e sc cc s = Some (r, s')"
  then show "\<not> isScanning s'"
    using assms by (auto simp: scanForNewEvents_def split: option.splits)
next
  assume "1 \<le> batchSize sc"
  then show "\<exists>n r s'. scanForNewEvents n e sc cc s = Some (r, s')"
    by (rule scanForNewEvents_ends)
qed

lemma rpcFailing_run:
  "\<exists>s'. scanForNewEvents (Suc 0) (rpcFailing 5) smallBatches polygon (idle [progressAt 0])
           = Some (Inl EventLoadingFailed, s')"
  by (simp add: run_defs fixture_defs rpcFailing_def cong: weak_congs)

theorem scan_releases_guard_witness:
  "\<not> isScanning (idle [progressAt 0]) \<and> 1 \<le> batchSize smallBatches \<and>
   (\<exists>s'. scanForNewEvents (Suc 0) (rpcFailing 5) smallBatches polygon (idle [progressAt 0])
            = Some (Inl EventLoadingFailed, s') \<and> \<not> isScanning s')"
proof -
  have h: "\<not> isScanning (idle [progressAt 0])" by (simp add: idle_def)
  have b: "1 \<le> batchSize smallBatches" by (simp add: smallBatches_def)
  obtain s' where run:
    "scanForNewEvents (Suc 0) (rpcFailing 5) smallBatches polygon (idle [progressAt 0])
       = Some (Inl EventLoadingFailed, s')"
    using rpcFailing_run by (elim exE)
  have "\<not> isScanning s'"
    using scan_releases_guard [OF h, of "rpcFailing 5" smallBatches polygon] run by blast
  then show ?thesis using h b run by blast
qed

section \<open>Seeding the progress document\<close>

lemma initializeScanProgress_existing:
  assumes "progressOf cc s \<noteq> None" "initializeScanProgress e cc s = (r, s')"
  shows "scanprogress s' = scanprogress s"
  using assms
  by (cases "dbDown e (tick s)")
     (auto simp: initializeScanProgress_def findOne_def called_def progressOf_def)

lemma initializeScanProgress_seeded:
  assumes "progressOf cc s = None" "initializeScanProgress e cc s = (Inr (), s')"
  shows "progressOf cc s' =
           Some \<lparr>chain = toLowerCase (name cc), lastScannedBlock = startBlock cc - 1,
                 lastScanTime = now s, totalEventsFound = 0, totalBlocksScanned = 0,
                 updatedAt = now s\<rparr>"
proof -
  have no: "\<not> list_ex (\<lambda>q. chain q = toLowerCase (name cc)) (scanprogress s)"
    using assms(1) by (auto simp: progressOf_def find_None_iff list_ex_iff)
  have up: "\<not> dbDown e (tick s)"
    using assms(2) by (auto simp: initializeScanProgress_def findOne_def called_def)
  show ?thesis
    using assms up no
    by (auto simp: initializeScanProgress_def findOne_def create_def called_def progressOf_def
             find_snoc_new split: if_splits)
qed

text \<open>
  C8. When the chain has no progress document, a call of \<open>initializeScanProgress\<close> that
  completes leaves one with \<open>lastScannedBlock = startBlock - 1\<close> and both counters at
  zero. When the chain has a document, the call leaves the collection as it is. Hence a
  second call, whatever the endpoint then answers, changes nothing.
\<close>

theorem initializeScanProgress_seeds_once:
  assumes "initializeScanProgress e cc s = (r, s')"
  shows "(progressOf cc s = None \<and> r = Inr () \<longrightarrow>
            (\<exists>p. progressOf cc s' = Some p \<and> lastScannedBlock p = startBlock cc - 1 \<and>
                 totalEventsFound p = 0 \<and> totalBlocksScanned p = 0)) \<and>
         (progressOf cc s \<noteq> None \<longrightarrow> scanprogress s' = scanprogress s) \<and>
         (\<forall>e2 r2 s2. r = Inr () \<and> initializeScanProgress e2 cc s' = (r2, s2) \<longrightarrow>
            scanprogress s2 = scanprogress s')"
proof (intro conjI allI impI)
  assume a: "progressOf cc s = None \<and> r = Inr ()"
  then show "\<exists>p. progressOf cc s' = Some p \<and> lastScannedBlock p = startBlock cc - 1 \<and>
                 totalEventsFound p = 0 \<and> totalBlocksScanned p = 0"
    using initializeScanProgress_seeded [of cc s e s'] assms by simp
next
  assume "progressOf cc s \<noteq> None"
  then show "scanprogress s' = scanprogress s"
    using initializeScanProgress_existing assms by blast
next
  fix e2 r2 s2
  assume a: "r = Inr () \<and> initializeScanProgress e2 cc s' = (r2, s2)"
  have "progressOf cc s' \<noteq> None"
  proof (cases "progressOf cc s")
    case None
    then show ?thesis using initializeScanProgress_seeded [of cc s e s'] assms a by simp
  next
    case (Some p)
    then have "scanprogress s' = scanprogress s"
      using initializeScanProgress_existing [of cc s e r s'] assms by simp
    then show ?thesis using Some by (simp add: progressOf_def)
  qed
  then show "scanprogress s2 = scanprogress s'"
    using initializeScanProgress_existing a by blast
qed

lemma seed_run:
  "\<exists>s1. initializeScanProgress (quiet 5) polygon (idle []) = (Inr (), s1) \<and>
         map lastScannedBlock (scanprogress s1) = [0]"
  by (simp add: initializeScanProgress_def store_defs fixture_defs toLowerCase_Polygon
           cong: weak_congs)

theorem initializeScanProgress_seeds_once_witness:
  "progressOf polygon (idle []) = None \<and>
   (\<exists>s1 r2 s2. initializeScanProgress (quiet 5) polygon (idle []) = (Inr (), s1) \<and>
      map lastScannedBlock (scanprogress s1) = [startBlock polygon - 1] \<and>
      progressOf polygon s1 \<noteq> None \<and>
      initializeScanProgress (quiet 100) polygon s1 = (r2, s2) \<and>
      scanprogress s2 = scanprogress s1)"
proof -
  have none: "progressOf polygon (idle []) = None" by (simp add: progressOf_def idle_def)
  obtain s1 where run: "initializeScanProgress (quiet 5) polygon (idle []) = (Inr (), s1)"
    and seeded: "map lastScannedBlock (scanprogress s1) = [0]"
    using seed_run by (elim exE conjE)
  obtain r2 s2 where again: "initializeScanProgress (quiet 100) polygon s1 = (r2, s2)"
    by (cases "initializeScanProgress (quiet 100) polygon s1")
  note inst = initializeScanProgress_seeds_once [OF run]
  have "progressOf polygon s1 \<noteq> None" using inst none by auto
  moreover have "scanprogress s2 = scanprogress s1" using inst again by blast
  ultimately show ?thesis using none run seeded again by (auto simp: polygon_def)
qed

section \<open>Monotone progress\<close>

lemma savedBlocks_append [simp]: "savedBlocks (xs @ ys) = savedBlocks xs @ savedBlocks ys"
  by (induction xs rule: savedBlocks.induct) auto

lemma savedBlocks_Delays [simp]: "savedBlocks (map Delay ds) = []"
  by (induction ds) auto

lemma saves_inv_delay: "saves_inv c0 lo l s \<Longrightarrow> saves_inv c0 lo l (delay ms s)"
  unfolding saves_inv_def
proof (elim exE conjE)
  fix new
  assume "calls s = c0 @ new" "sorted (lo # savedBlocks new)"
    "\<forall>x \<in> set (lo # savedBlocks new). x \<le> lastScannedBlock (progress l)"
  then have "calls (delay ms s) = c0 @ (new @ [Delay ms]) \<and>
    sorted (lo # savedBlocks (new @ [Delay ms])) \<and>
    (\<forall>x \<in> set (lo # savedBlocks (new @ [Delay ms])). x \<le> lastScannedBlock (progress l))"
    by (simp add: delay_def)
  then show "\<exists>new. calls (delay ms s) = c0 @ new \<and> sorted (lo # savedBlocks new) \<and>
    (\<forall>x \<in> set (lo # savedBlocks new). x \<le> lastScannedBlock (progress l))"
    by blast
qed

lemma saves_inv_step:
  assumes "saves_inv c0 lo l s" "processBatch e cc a b l s = (r, l', s')"
  shows "saves_inv c0 lo l' s'"
proof -
  obtain new where n: "calls s = c0 @ new" "sorted (lo # savedBlocks new)"
    "\<forall>x \<in> set (lo # savedBlocks new). x \<le> lastScannedBlock (progress l)"
    using assms(1) unfolding saves_inv_def by blast
  consider (ok) "calls s' = calls s @ [Fetch a b, BatchStored a b, Save (progress l')]"
        "lastScannedBlock (progress l') = max (lastScannedBlock (progress l)) b"
    | (scan) "l' = l" "calls s' = calls s @ [Fetch a b]"
    | (save) "calls s' = calls s @ [Fetch a b, BatchStored a b]"
        "lastScannedBlock (progress l') = max (lastScannedBlock (progress l)) b"
    using processBatch_calls [OF assms(2)] by auto
  then show ?thesis
  proof cases
    case ok
    let ?new = "new @ [Fetch a b, BatchStored a b, Save (progress l')]"
    have ge: "\<forall>x \<in> set (lo # savedBlocks new). x \<le> lastScannedBlock (progress l')"
      using n(3) ok(2) by auto
    have "sorted ((lo # savedBlocks new) @ [lastScannedBlock (progress l')])"
      using n(2) ge by (simp only: sorted_append) auto
    then have "calls s' = c0 @ ?new \<and> sorted (lo # savedBlocks ?new) \<and>
      (\<forall>x \<in> set (lo # savedBlocks ?new). x \<le> lastScannedBlock (progress l'))"
      using ok(1) n(1) ge by simp
    then show ?thesis unfolding saves_inv_def by blast
  next
    case scan
    have "calls s' = c0 @ (new @ [Fetch a b]) \<and> sorted (lo # savedBlocks (new @ [Fetch a b])) \<and>
      (\<forall>x \<in> set (lo # savedBlocks (new @ [Fetch a b])). x \<le> lastScannedBlock (progress l'))"
      using scan n by simp
    then show ?thesis unfolding saves_inv_def by blast
  next
    case save
    let ?new = "new @ [Fetch a b, BatchStored a b]"
    have ge: "\<forall>x \<in> set (lo # savedBlocks new). x \<le> lastScannedBlock (progress l')"
      using n(3) save(2) by auto
    have "calls s' = c0 @ ?new \<and> sorted (lo # savedBlocks ?new) \<and>
      (\<forall>x \<in> set (lo # savedBlocks ?new). x \<le> lastScannedBlock (progress l'))"
      using save(1) n(1,2) ge by simp
    then show ?thesis unfolding saves_inv_def by blast
  qed
qed

lemma scan_saves_sorted:
  assumes idle: "\<not> isScanning s"
    and p: "progressOf cc s = Some p"
    and run: "scanForNewEvents n e sc cc s = Some (r, s')"
  shows "\<exists>new. calls s' = calls s @ new \<and> sorted (lastScannedBlock p # savedBlocks new)"
proof -
  let ?s0 = "s\<lparr>isScanning := True\<rparr>"
  obtain s1 where body: "scanBody n e sc cc ?s0 = Some (r, s1)" and s': "s' = s1\<lparr>isScanning := False\<rparr>"
    using run idle by (auto simp: scanForNewEvents_def split: option.splits)
  obtain r1 t1 where g: "getScanProgress e cc ?s0 = (r1, t1)"
    by (cases "getScanProgress e cc ?s0")
  have c1: "calls t1 = calls s" using getScanProgress_frame [OF g] by simp
  show ?thesis
  proof (cases r1)
    case (Inl err)
    then have "s1 = t1" using body g by (simp add: scanBody_def)
    then show ?thesis using c1 s' by (intro exI [of _ "[]"]) simp
  next
    case found: (Inr q)
    have "progressOf cc ?s0 = Some q"
      using getScanProgress_found [OF g [unfolded found]] by (simp add: progressOf_def)
    then have q: "q = p" using p by (simp add: progressOf_def)
    obtain r2 t2 where h: "getCurrentBlockNumber e t1 = (r2, t2)"
      by (cases "getCurrentBlockNumber e t1")
    obtain ds where c2: "calls t2 = calls s @ map Delay ds"
      using getCurrentBlockNumberFrom_calls [OF h [unfolded getCurrentBlockNumber_def]] c1
      by auto
    show ?thesis
    proof (cases r2)
      case (Inl err)
      then have "s1 = t2" using body g found h by (simp add: scanBody_def)
      then show ?thesis using c2 s' by (intro exI [of _ "map Delay ds"]) simp
    next
      case (Inr cb)
      show ?thesis
      proof (cases "lastScannedBlock q \<ge> cb")
        case True
        then have "s1 = t2" using body g found h Inr by (simp add: scanBody_def)
        then show ?thesis using c2 s' by (intro exI [of _ "map Delay ds"]) simp
      next
        case False
        let ?l = "\<lparr>progress = q, totalEvents = 0, totalBlocks = 0\<rparr>"
        obtain l3 where loop:
          "scanLoop n e sc cc cb (lastScannedBlock q + 1) ?l t2 = Some (r, l3, s1)"
          using body g found h Inr False by (auto simp: scanBody_def split: option.splits)
        have init: "saves_inv (calls s) (lastScannedBlock p) ?l t2"
          unfolding saves_inv_def
          by (intro exI [of _ "map Delay ds"]) (simp add: c2 q)
        have "saves_inv (calls s) (lastScannedBlock p) l3 s1"
          by (rule scanLoop_invariant [where Q = "saves_inv (calls s) (lastScannedBlock p)",
                OF saves_inv_step saves_inv_delay init loop])
        then show ?thesis using s' unfolding saves_inv_def by auto
      qed
    qed
  qed
qed

text \<open>
  C9. \<open>updateProgress\<close> sets \<open>lastScannedBlock\<close> to the maximum of its current value and
  the proposed block, so a smaller proposal leaves it where it is. Across one scan cycle,
  and across any sequence of timer-driven cycles, the stored \<open>lastScannedBlock\<close> of the
  chain does not decrease, whatever the endpoint and the database answer; and within a
  cycle the values written by its successive saves, starting from the stored value, are
  in non-decreasing order.
\<close>

theorem lastScannedBlock_never_decreases:
  "lastScannedBlock (updateProgress lastBlock eventsCount blocksScanned date p)
     = max (lastScannedBlock p) lastBlock \<and>
   (\<forall>n e r s' q. scanForNewEvents n e sc cc s = Some (r, s') \<and> progressOf cc s = Some q \<longrightarrow>
      (\<exists>q'. progressOf cc s' = Some q' \<and> lastScannedBlock q \<le> lastScannedBlock q')) \<and>
   (\<forall>runs s' q. periodicScans runs sc cc s = Some s' \<and> progressOf cc s = Some q \<longrightarrow>
      (\<exists>q'. progressOf cc s' = Some q' \<and> lastScannedBlock q \<le> lastScannedBlock q')) \<and>
   (\<forall>n e r s' q. \<not> isScanning s \<and> scanForNewEvents n e sc cc s = Some (r, s') \<and>
        progressOf cc s = Some q \<longrightarrow>
      (\<exists>new. calls s' = calls s @ new \<and> sorted (lastScannedBlock q # savedBlocks new)))"
proof (intro conjI allI impI)
  show "lastScannedBlock (updateProgress lastBlock eventsCount blocksScanned date p)
          = max (lastScannedBlock p) lastBlock"
    by (simp add: updateProgress_def)
next
  fix n e r s' q
  assume a: "scanForNewEvents n e sc cc s = Some (r, s') \<and> progressOf cc s = Some q"
  then have "advanced (scanprogress s) (scanprogress s')"
    using scanForNewEvents_advanced by blast
  then show "\<exists>q'. progressOf cc s' = Some q' \<and> lastScannedBlock q \<le> lastScannedBlock q'"
    using a unfolding advanced_def progressOf_def by blast
next
  fix runs s' q
  assume a: "periodicScans runs sc cc s = Some s' \<and> progressOf cc s = Some q"
  then have "advanced (scanprogress s) (scanprogress s')"
    using periodicScans_advanced by blast
  then show "\<exists>q'. progressOf cc s' = Some q' \<and> lastScannedBlock q \<le> lastScannedBlock q'"
    using a unfolding advanced_def progressOf_def by blast
next
  fix n e r s' q
  assume "\<not> isScanning s \<and> scanForNewEvents n e sc cc s = Some (r, s') \<and>
        progressOf cc s = Some q"
  then show "\<exists>new. calls s' = calls s @ new \<and> sorted (lastScannedBlock q # savedBlocks new)"
    using scan_saves_sorted by blast
qed

lemma quiet_run:
  "\<exists>s'. scanForNewEvents (Suc (Suc (Suc 0))) (quiet 5) smallBatches polygon (idle [progressAt 0])
           = Some (Inr (), s') \<and>
         map lastScannedBlock (scanprogress s') = [5] \<and> \<not> isScanning s' \<and>
         savedBlocks (calls s') = [2, 4, 5]"
  by (simp add: run_defs fixture_defs cong: weak_congs)

theorem lastScannedBlock_never_decreases_witness:
  "lastScannedBlock (updateProgress 3 0 1 0 (progressAt 10)) = 10 \<and>
   progressOf polygon (idle [progressAt 0]) = Some (progressAt 0) \<and>
   \<not> isScanning (idle [progressAt 0]) \<and>
   (\<exists>s' q'. scanForNewEvents (Suc (Suc (Suc 0))) (quiet 5) smallBatches polygon
               (idle [progressAt 0]) = Some (Inr (), s') \<and>
            periodicScans [(Suc (Suc (Suc 0)), quiet 5)] smallBatches polygon (idle [progressAt 0])
              = Some s' \<and>
            progressOf polygon s' = Some q' \<and>
            lastScannedBlock (progressAt 0) \<le> lastScannedBlock q' \<and>
            savedBlocks (calls s') = [2, 4, 5] \<and>
            sorted (lastScannedBlock (progressAt 0) # savedBlocks (calls s')))"
proof -
  note inst = lastScannedBlock_never_decreases
    [of 3 0 1 0 "progressAt 10" smallBatches polygon "idle [progressAt 0]"]
  have u: "lastScannedBlock (updateProgress 3 0 1 0 (progressAt 10)) = 10"
    using conjunct1 [OF inst] by (simp add: progressAt_def)
  have p0: "progressOf polygon (idle [progressAt 0]) = Some (progressAt 0)"
    by (simp add: progressOf_def idle_def progressAt_def polygon_def toLowerCase_Polygon)
  have i0: "\<not> isScanning (idle [progressAt 0])" and c0: "calls (idle [progressAt 0]) = []"
    by (simp_all add: idle_def)
  obtain s' where run:
    "scanForNewEvents (Suc (Suc (Suc 0))) (quiet 5) smallBatches polygon (idle [progressAt 0])
       = Some (Inr (), s')" and saved: "savedBlocks (calls s') = [2, 4, 5]"
    using quiet_run by (elim exE conjE)
  have per: "periodicScans [(Suc (Suc (Suc 0)), quiet 5)] smallBatches polygon (idle [progressAt 0])
               = Some s'"
    using run i0 by simp
  obtain q' where q': "progressOf polygon s' = Some q'"
    "lastScannedBlock (progressAt 0) \<le> lastScannedBlock q'"
    using conjunct1 [OF conjunct2 [OF conjunct2 [OF inst]]] per p0 by blast
  obtain new where "calls s' = calls (idle [progressAt 0]) @ new"
    "sorted (lastScannedBlock (progressAt 0) # savedBlocks new)"
    using conjunct2 [OF conjunct2 [OF conjunct2 [OF inst]]] i0 run p0 by blast
  then have srt: "sorted (lastScannedBlock (progressAt 0) # savedBlocks (calls s'))"
    by (simp add: c0)
  show ?thesis
    by (intro conjI u p0 i0 exI [of _ s'] exI [of _ q'] run per q' saved srt)
qed
section \<open>Duplicate suppression\<close>

lemma sameKey_naturalKey: "sameKey x d \<longleftrightarrow> naturalKey x = naturalKey d"
  by (auto simp: sameKey_def naturalKey_def)

lemma list_ex_sameKey:
  "list_ex (\<lambda>x. sameKey x d) coll \<longleftrightarrow> naturalKey d \<in> naturalKey ` set coll"
  by (auto simp: list_ex_iff sameKey_naturalKey image_iff) metis

lemma insertUnordered_Cons_fst:
  "fst (insertUnordered coll (d # ds)) =
     (if list_ex (\<lambda>x. sameKey x d) coll then fst (insertUnordered coll ds)
      else fst (insertUnordered (coll @ [d]) ds))"
  by (simp split: prod.splits)

lemma insertUnordered_Cons_snd:
  "snd (insertUnordered coll (d # ds)) =
     (if list_ex (\<lambda>x. sameKey x d) coll then Suc (snd (insertUnordered coll ds))
      else snd (insertUnordered (coll @ [d]) ds))"
  by (simp split: prod.splits)

declare insertUnordered.simps(2) [simp del]

lemma insertUnordered_appends:
  "\<exists>added. fst (insertUnordered coll docs) = coll @ added \<and> set added \<subseteq> set docs"
proof (induction docs arbitrary: coll)
  case Nil
  then show ?case by simp
next
  case (Cons d ds)
  show ?case
  proof (cases "list_ex (\<lambda>x. sameKey x d) coll")
    case True
    obtain added where "fst (insertUnordered coll ds) = coll @ added" "set added \<subseteq> set ds"
      using Cons.IH by blast
    then show ?thesis using True by (auto simp: insertUnordered_Cons_fst)
  next
    case False
    obtain added where "fst (insertUnordered (coll @ [d]) ds) = (coll @ [d]) @ added"
      "set added \<subseteq> set ds"
      using Cons.IH by blast
    then have "fst (insertUnordered coll (d # ds)) = coll @ (d # added) \<and>
               set (d # added) \<subseteq> set (d # ds)"
      using False by (auto simp: insertUnordered_Cons_fst)
    then show ?thesis by blast
  qed
qed

lemma insertUnordered_keys:
  "naturalKey ` set (fst (insertUnordered coll docs)) = naturalKey ` (set coll \<union> set docs)"
proof (induction docs arbitrary: coll)
  case Nil
  then show ?case by simp
next
  case (Cons d ds)
  show ?case
  proof (cases "list_ex (\<lambda>x. sameKey x d) coll")
    case True
    then have "naturalKey d \<in> naturalKey ` set coll" by (simp add: list_ex_sameKey)
    then show ?thesis using True Cons.IH [of coll] by (auto simp: insertUnordered_Cons_fst)
  next
    case False
    then show ?thesis using Cons.IH [of "coll @ [d]"] by (auto simp: insertUnordered_Cons_fst)
  qed
qed

lemma insertUnordered_distinct:
  "keysDistinct coll \<Longrightarrow> keysDistinct (fst (insertUnordered coll docs))"
proof (induction docs arbitrary: coll)
  case Nil
  then show ?case by simp
next
  case (Cons d ds)
  show ?case
  proof (cases "list_ex (\<lambda>x. sameKey x d) coll")
    case True
    then show ?thesis using Cons by (simp add: insertUnordered_Cons_fst)
  next
    case False
    then have "keysDistinct (coll @ [d])"
      using Cons.prems by (auto simp: keysDistinct_def list_ex_sameKey)
    then show ?thesis using False Cons.IH by (simp add: insertUnordered_Cons_fst)
  qed
qed

lemma insertUnordered_all_present:
  "naturalKey ` set docs \<subseteq> naturalKey ` set coll \<Longrightarrow>
   insertUnordered coll docs = (coll, length docs)"
  by (induction docs) (auto simp: list_ex_sameKey insertUnordered.simps(2))

lemma insertUnordered_count:
  "length (fst (insertUnordered coll docs)) + snd (insertUnordered coll docs)
     = length coll + length docs"
proof (induction docs arbitrary: coll)
  case Nil
  then show ?case by simp
next
  case (Cons d ds)
  show ?case
  proof (cases "list_ex (\<lambda>x. sameKey x d) coll")
    case True
    then show ?thesis using Cons.IH [of coll]
      by (simp add: insertUnordered_Cons_fst insertUnordered_Cons_snd)
  next
    case False
    then show ?thesis using Cons.IH [of "coll @ [d]"]
      by (simp add: insertUnordered_Cons_fst insertUnordered_Cons_snd)
  qed
qed

text \<open>The documents \<open>storeEvents\<close> hands to the bulk insert.\<close>

lemma naturalKey_extend [simp]:
  "naturalKey (ParsedFeeCollectedEvent.extend ev x) = naturalKey ev"
  by (simp add: naturalKey_def ParsedFeeCollectedEvent.defs)

lemma storeEvents_feeevents:
  assumes "storeEvents e cc events s = (r, s')"
  shows "(dbDown e (tick s) \<and> events \<noteq> [] \<longrightarrow> r = Inl MongoNetworkError \<and> feeevents s' = feeevents s) \<and>
         (\<not> dbDown e (tick s) \<or> events = [] \<longrightarrow>
            r = Inr () \<and>
            feeevents s' =
              fst (insertUnordered (feeevents s)
                     (map (\<lambda>event. ParsedFeeCollectedEvent.extend event
                                     (FeeEvent.fields (toLowerCase (name cc)))) events)))"
proof (cases "events = []")
  case True
  then show ?thesis using assms by (simp add: storeEvents_def)
next
  case False
  let ?docs = "map (\<lambda>event. ParsedFeeCollectedEvent.extend event
                               (FeeEvent.fields (toLowerCase (name cc)))) events"
  obtain coll k where iu: "insertUnordered (feeevents s) ?docs = (coll, k)"
    by (cases "insertUnordered (feeevents s) ?docs")
  show ?thesis
  proof (cases "dbDown e (tick s)")
    case True
    then show ?thesis using assms False
      by (auto simp: storeEvents_def insertMany_def called_def Let_def)
  next
    case up: False
    show ?thesis
    proof (cases "k = 0")
      case True
      then show ?thesis using assms False up iu
        by (auto simp: storeEvents_def insertMany_def called_def Let_def)
    next
      case dup: False
      then show ?thesis using assms False up iu
        by (auto simp: storeEvents_def insertMany_def called_def Let_def)
    qed
  qed
qed

text \<open>
  C4. Through \<open>storeEvents\<close> the event collection never comes to hold a natural key
  twice. While the database answers, key collisions are not an error: the call returns
  normally, every event of the call has a stored document with its key afterwards
  (colliding or not), documents already stored stay as they are and what is added are
  documents of this call, and a call whose events are all stored already leaves the
  collection unchanged. Storing the same events a second time changes nothing.
\<close>

theorem storeEvents_deduplicates:
  assumes "storeEvents e cc events s = (r, s')"
  shows "(keysDistinct (feeevents s) \<longrightarrow> keysDistinct (feeevents s')) \<and>
         (\<not> dbDown e (tick s) \<longrightarrow>
            r = Inr () \<and>
            (\<forall>ev \<in> set events. naturalKey ev \<in> naturalKey ` set (feeevents s')) \<and>
            (\<exists>added. feeevents s' = feeevents s @ added \<and>
               set added \<subseteq> (\<lambda>event. ParsedFeeCollectedEvent.extend event
                                        (FeeEvent.fields (toLowerCase (name cc)))) ` set events) \<and>
            (naturalKey ` set events \<subseteq> naturalKey ` set (feeevents s) \<longrightarrow>
               feeevents s' = feeevents s)) \<and>
         (\<forall>e2 r2 s2. r = Inr () \<and> storeEvents e2 cc events s' = (r2, s2) \<longrightarrow>
            feeevents s2 = feeevents s')"
proof -
  let ?doc = "\<lambda>event. ParsedFeeCollectedEvent.extend event (FeeEvent.fields (toLowerCase (name cc)))"
  have keys_docs: "\<And>evs. naturalKey ` set (map ?doc evs) = naturalKey ` set evs"
    by (auto simp: image_iff)
  note fe = storeEvents_feeevents [OF assms]
  have stored: "feeevents s' = feeevents s \<or>
                feeevents s' = fst (insertUnordered (feeevents s) (map ?doc events))"
    using fe by blast
  have c1: "keysDistinct (feeevents s) \<longrightarrow> keysDistinct (feeevents s')"
    using stored insertUnordered_distinct by auto
  have ok_keys: "naturalKey ` set events \<subseteq> naturalKey ` set (feeevents s')"
    if "r = Inr ()"
  proof -
    have "feeevents s' = fst (insertUnordered (feeevents s) (map ?doc events))"
      using fe that by auto
    then have "naturalKey ` set (feeevents s') = naturalKey ` (set (feeevents s) \<union> set (map ?doc events))"
      by (simp add: insertUnordered_keys)
    then show ?thesis using keys_docs [of events] by (auto simp: image_Un)
  qed
  have c2: "\<not> dbDown e (tick s) \<longrightarrow>
            r = Inr () \<and>
            (\<forall>ev \<in> set events. naturalKey ev \<in> naturalKey ` set (feeevents s')) \<and>
            (\<exists>added. feeevents s' = feeevents s @ added \<and>
               set added \<subseteq> (\<lambda>event. ParsedFeeCollectedEvent.extend event
                                        (FeeEvent.fields (toLowerCase (name cc)))) ` set events) \<and>
            (naturalKey ` set events \<subseteq> naturalKey ` set (feeevents s) \<longrightarrow>
               feeevents s' = feeevents s)"
  proof
    assume up: "\<not> dbDown e (tick s)"
    then have r: "r = Inr ()"
      and f: "feeevents s' = fst (insertUnordered (feeevents s) (map ?doc events))"
      using fe by auto
    have a: "\<forall>ev \<in> set events. naturalKey ev \<in> naturalKey ` set (feeevents s')"
      using ok_keys [OF r] by blast
    have b: "\<exists>added. feeevents s' = feeevents s @ added \<and> set added \<subseteq> ?doc ` set events"
      using insertUnordered_appends [of "feeevents s" "map ?doc events"] f by auto
    have c: "naturalKey ` set events \<subseteq> naturalKey ` set (feeevents s) \<longrightarrow>
               feeevents s' = feeevents s"
    proof
      assume "naturalKey ` set events \<subseteq> naturalKey ` set (feeevents s)"
      then have "naturalKey ` set (map ?doc events) \<subseteq> naturalKey ` set (feeevents s)"
        using keys_docs [of events] by simp
      then show "feeevents s' = feeevents s"
        using f by (simp add: insertUnordered_all_present)
    qed
    show "r = Inr () \<and>
            (\<forall>ev \<in> set events. naturalKey ev \<in> naturalKey ` set (feeevents s')) \<and>
            (\<exists>added. feeevents s' = feeevents s @ added \<and>
               set added \<subseteq> (\<lambda>event. ParsedFeeCollectedEvent.extend event
                                        (FeeEvent.fields (toLowerCase (name cc)))) ` set events) \<and>
            (naturalKey ` set events \<subseteq> naturalKey ` set (feeevents s) \<longrightarrow>
               feeevents s' = feeevents s)"
      using r a b c by blast
  qed
  have c3: "\<forall>e2 r2 s2. r = Inr () \<and> storeEvents e2 cc events s' = (r2, s2) \<longrightarrow>
            feeevents s2 = feeevents s'"
  proof (intro allI impI)
    fix e2 r2 s2
    assume a: "r = Inr () \<and> storeEvents e2 cc events s' = (r2, s2)"
    then have present: "naturalKey ` set (map ?doc events) \<subseteq> naturalKey ` set (feeevents s')"
      using ok_keys keys_docs [of events] by simp
    have "feeevents s2 = feeevents s' \<or>
          feeevents s2 = fst (insertUnordered (feeevents s') (map ?doc events))"
      using storeEvents_feeevents [of e2 cc events s' r2 s2] a by blast
    then show "feeevents s2 = feeevents s'"
      using present by (auto simp: insertUnordered_all_present)
  qed
  show ?thesis using c1 c2 c3 by blast
qed
lemma store_two_run:
  "\<exists>s'. storeEvents (quiet 5) polygon [feeA, feeB] alreadyStored = (Inr (), s') \<and>
         map naturalKey (feeevents s') = [(''0xabc123'', 0), (''0xdef456'', 1)]"
  by (simp add: storeEvents_def insertMany_def called_def insertUnordered.simps(2) sameKey_def
        naturalKey_def alreadyStored_def feeA_def feeB_def fixture_defs
        ParsedFeeCollectedEvent.defs FeeEvent.defs Let_def cong: weak_congs)

theorem storeEvents_deduplicates_witness:
  "keysDistinct (feeevents alreadyStored) \<and> \<not> dbDown (quiet 5) (tick alreadyStored) \<and>
   naturalKey ` set [feeA] \<subseteq> naturalKey ` set (feeevents alreadyStored) \<and>
   (\<exists>s'. storeEvents (quiet 5) polygon [feeA] alreadyStored = (Inr (), s') \<and>
         feeevents s' = feeevents alreadyStored) \<and>
   (\<exists>s' r2 s2. storeEvents (quiet 5) polygon [feeA, feeB] alreadyStored = (Inr (), s') \<and>
         map naturalKey (feeevents s') = [(''0xabc123'', 0), (''0xdef456'', 1)] \<and>
         keysDistinct (feeevents s') \<and>
         (\<forall>ev \<in> set [feeA, feeB]. naturalKey ev \<in> naturalKey ` set (feeevents s')) \<and>
         storeEvents (quiet 5) polygon [feeA, feeB] s' = (r2, s2) \<and>
         feeevents s2 = feeevents s')"
proof -
  have kd: "keysDistinct (feeevents alreadyStored)"
    by (simp add: keysDistinct_def alreadyStored_def)
  have up: "\<not> dbDown (quiet 5) (tick alreadyStored)"
    by (simp add: quiet_def)
  have sub: "naturalKey ` set [feeA] \<subseteq> naturalKey ` set (feeevents alreadyStored)"
    by (simp add: naturalKey_def alreadyStored_def feeA_def)
  obtain r1 s1 where one: "storeEvents (quiet 5) polygon [feeA] alreadyStored = (r1, s1)"
    by (cases "storeEvents (quiet 5) polygon [feeA] alreadyStored")
  have first: "r1 = Inr () \<and> feeevents s1 = feeevents alreadyStored"
    using storeEvents_deduplicates [OF one] up sub by simp
  obtain s' where two: "storeEvents (quiet 5) polygon [feeA, feeB] alreadyStored = (Inr (), s')"
    and keys: "map naturalKey (feeevents s') = [(''0xabc123'', 0), (''0xdef456'', 1)]"
    using store_two_run by (elim exE conjE)
  obtain r2 s2 where again: "storeEvents (quiet 5) polygon [feeA, feeB] s' = (r2, s2)"
    by (cases "storeEvents (quiet 5) polygon [feeA, feeB] s'")
  note inst = storeEvents_deduplicates [OF two]
  have up': "\<not> dbDown (quiet 5) (tick alreadyStored)" by (rule up)
  have d: "keysDistinct (feeevents s')" using conjunct1 [OF inst] kd by simp
  note c2 = mp [OF conjunct1 [OF conjunct2 [OF inst]] up']
  have m: "\<forall>ev \<in> set [feeA, feeB]. naturalKey ev \<in> naturalKey ` set (feeevents s')"
    by (rule conjunct1 [OF conjunct2 [OF c2]])
  have n: "feeevents s2 = feeevents s'"
    using conjunct2 [OF conjunct2 [OF inst]] again by (elim allE [of _ "quiet 5"] allE [of _ r2] allE [of _ s2]) simp
  have part1: "\<exists>s'. storeEvents (quiet 5) polygon [feeA] alreadyStored = (Inr (), s') \<and>
         feeevents s' = feeevents alreadyStored"
    using one first by simp
  have part2: "\<exists>s' r2 s2. storeEvents (quiet 5) polygon [feeA, feeB] alreadyStored = (Inr (), s') \<and>
         map naturalKey (feeevents s') = [(''0xabc123'', 0), (''0xdef456'', 1)] \<and>
         keysDistinct (feeevents s') \<and>
         (\<forall>ev \<in> set [feeA, feeB]. naturalKey ev \<in> naturalKey ` set (feeevents s')) \<and>
         storeEvents (quiet 5) polygon [feeA, feeB] s' = (r2, s2) \<and>
         feeevents s2 = feeevents s'"
    by (intro exI [of _ s'] exI [of _ r2] exI [of _ s2] conjI two keys d m again n)
  show ?thesis by (intro conjI kd up sub part1 part2)
qed
section \<open>The count a batch returns\<close>

lemma storeEvents_inserted_le:
  assumes "storeEvents e cc events s = (r, s')"
  shows "length (feeevents s') \<le> length (feeevents s) + length events"
proof -
  let ?docs = "map (\<lambda>event. ParsedFeeCollectedEvent.extend event
                               (FeeEvent.fields (toLowerCase (name cc)))) events"
  have "feeevents s' = feeevents s \<or> feeevents s' = fst (insertUnordered (feeevents s) ?docs)"
    using storeEvents_feeevents [OF assms] by blast
  moreover have "length (fst (insertUnordered (feeevents s) ?docs))
                   \<le> length (feeevents s) + length events"
    using insertUnordered_count [of "feeevents s" ?docs] by simp
  ultimately show ?thesis by auto
qed

lemma scanBatch_count:
  assumes "scanBatch e cc a b s = (Inr n, s')"
  shows "\<exists>raws s1. loadFeeCollectorEvents e a b s = (Inr raws, s1) \<and>
           n = int (length (fst (parseFeeCollectorEvents e raws s1))) \<and>
           int (length (feeevents s')) - int (length (feeevents s)) \<le> n"
  using assms
proof (cases rule: scanBatch_cases)
  case (empty s1)
  then show ?thesis using loadFeeCollectorEvents_frame [OF empty(1)] by simp
next
  case (stored raws s1 ps s2 s3)
  have "feeevents s2 = feeevents s"
    using loadFeeCollectorEvents_frame [OF stored(1)] parseFeeCollectorEvents_frame [OF stored(3)]
    by simp
  then have "length (feeevents s') \<le> length (feeevents s) + length ps"
    using storeEvents_inserted_le [OF stored(4)] stored(6) by simp
  then show ?thesis using stored by simp
qed simp_all

text \<open>
  C2, as the code has it. The count \<open>scanBatch\<close> returns is the number of events decoded
  from the batch, whether or not their keys were stored before; the number of documents
  the batch adds to the store is at most that count. A successful \<open>processBatch\<close> adds
  the same count to \<open>totalEventsFound\<close> of the progress document and to the total of the
  cycle.
\<close>

theorem scanBatch_counts_decoded_events:
  "(\<forall>n s'. scanBatch e cc a b s = (Inr n, s') \<longrightarrow>
      (\<exists>raws s1. loadFeeCollectorEvents e a b s = (Inr raws, s1) \<and>
         n = int (length (fst (parseFeeCollectorEvents e raws s1))) \<and>
         int (length (feeevents s')) - int (length (feeevents s)) \<le> n)) \<and>
   (\<forall>l l' s'. processBatch e cc a b l s = (Inr (), l', s') \<longrightarrow>
      (\<exists>n s1. scanBatch e cc a b s = (Inr n, s1) \<and>
         totalEventsFound (progress l') = totalEventsFound (progress l) + n \<and>
         totalEvents l' = totalEvents l + n))"
proof (intro conjI allI impI)
  fix n s'
  assume "scanBatch e cc a b s = (Inr n, s')"
  then show "\<exists>raws s1. loadFeeCollectorEvents e a b s = (Inr raws, s1) \<and>
         n = int (length (fst (parseFeeCollectorEvents e raws s1))) \<and>
         int (length (feeevents s')) - int (length (feeevents s)) \<le> n"
    by (rule scanBatch_count)
next
  fix l l' s'
  assume "processBatch e cc a b l s = (Inr (), l', s')"
  then show "\<exists>n s1. scanBatch e cc a b s = (Inr n, s1) \<and>
         totalEventsFound (progress l') = totalEventsFound (progress l) + n \<and>
         totalEvents l' = totalEvents l + n"
  proof (cases rule: processBatch_cases)
    case (saved n s1 s2)
    then show ?thesis by (auto simp: afterBatch_def updateProgress_def)
  qed simp_all
qed

lemmas event_defs = collected_def oneEvent_def alreadyStored_def getBlockTimestamp_def
  normalizeAddress_def toLowerCase_def char_of_def bit_0 insertUnordered.simps(2) sameKey_def
  ParsedFeeCollectedEvent.defs

lemma duplicate_batch_run:
  "scanBatch (oneEvent 1) polygon 1 1 alreadyStored =
     (Inr 1, alreadyStored\<lparr>tick := 3, calls := [Fetch 1 1, BatchStored 1 1]\<rparr>)"
  by (simp add: run_defs fixture_defs event_defs cong: weak_congs)

theorem scanBatch_counts_decoded_events_witness:
  "scanBatch (oneEvent 1) polygon 1 1 alreadyStored =
     (Inr 1, alreadyStored\<lparr>tick := 3, calls := [Fetch 1 1, BatchStored 1 1]\<rparr>) \<and>
   (\<exists>raws s1. loadFeeCollectorEvents (oneEvent 1) 1 1 alreadyStored = (Inr raws, s1) \<and>
      (1::int) = int (length (fst (parseFeeCollectorEvents (oneEvent 1) raws s1))))"
  using scanBatch_counts_decoded_events [of "oneEvent 1" polygon 1 1 alreadyStored]
    duplicate_batch_run by blast

lemma duplicate_scan_run:
  "\<exists>s'. scanForNewEvents (Suc 0) (oneEvent 1) smallBatches polygon alreadyStored
           = Some (Inr (), s') \<and>
         map totalEventsFound (scanprogress s') = [1] \<and>
         feeevents s' = feeevents alreadyStored"
  by (simp add: run_defs fixture_defs event_defs cong: weak_congs)

text \<open>
  The claim as written fails: the batch below consists of one event whose key is stored
  already; nothing is inserted, the count returned is 1, and the cycle adds 1 to
  \<open>totalEventsFound\<close>.
\<close>

theorem scanBatch_count_includes_duplicates:
  "fst (scanBatch (oneEvent 1) polygon 1 1 alreadyStored) = Inr 1 \<and>
   feeevents (snd (scanBatch (oneEvent 1) polygon 1 1 alreadyStored)) = feeevents alreadyStored \<and>
   (\<exists>s'. scanForNewEvents (Suc 0) (oneEvent 1) smallBatches polygon alreadyStored
           = Some (Inr (), s') \<and>
         map totalEventsFound (scanprogress s') = [1] \<and>
         feeevents s' = feeevents alreadyStored)"
  using duplicate_scan_run by (simp add: duplicate_batch_run)
section \<open>Starting the scanner with an invalid contract\<close>

lemma validateContract_invalid:
  "getCode e (tick s) (contractAddress cc) = Inr ''0x'' \<or> isl (getCode e (tick s) (contractAddress cc))
   \<longleftrightarrow> \<not> fst (validateContract e cc s)"
  by (cases "getCode e (tick s) (contractAddress cc)") (auto simp: validateContract_def)

lemma validateContract_state: "snd (validateContract e cc s) = called s"
  by (cases "getCode e (tick s) (contractAddress cc)") (auto simp: validateContract_def)

lemma start_invalid:
  assumes "getCode e (tick s) (contractAddress cc) = Inr ''0x'' \<or>
           isl (getCode e (tick s) (contractAddress cc))"
  shows "start n e sc cc s = Some (Inr (), called s)"
proof -
  have "validateContract e cc s = (False, called s)"
    using assms by (cases "getCode e (tick s) (contractAddress cc)") (auto simp: validateContract_def)
  then show ?thesis by (simp add: start_def)
qed

lemma start_no_error:
  assumes "start n e sc cc s = Some (r, s')"
  shows "r = Inr ()"
proof -
  obtain v s1 where v: "validateContract e cc s = (v, s1)"
    by (cases "validateContract e cc s")
  show ?thesis
  proof (cases v)
    case False
    then show ?thesis using assms by (simp add: start_def v)
  next
    case True
    obtain r2 s2 where i: "initializeScanProgress e cc s1 = (r2, s2)"
      by (cases "initializeScanProgress e cc s1")
    show ?thesis
    proof (cases r2)
      case (Inl err)
      then show ?thesis using assms True by (simp add: start_def v i)
    next
      case (Inr u)
      show ?thesis
      proof (cases "scanForNewEvents n e sc cc s2")
        case None
        then show ?thesis using assms True Inr by (simp add: start_def v i)
      next
        case first: (Some a3)
        obtain r3 s3 where a3: "a3 = (r3, s3)" by (cases a3)
        show ?thesis
        proof (cases "scanForNewEvents n e sc cc s3")
          case None
          then show ?thesis using assms True Inr first a3 by (simp add: start_def v i)
        next
          case second: (Some a4)
          obtain r4 s4 where a4: "a4 = (r4, s4)" by (cases a4)
          show ?thesis using assms True Inr first a3 second a4 by (simp add: start_def v i)
        qed
      qed
    qed
  qed
qed

text \<open>
  C6, as the code has it. \<open>start\<close> never hands an error to its caller. When the contract
  address has no code, or the endpoint cannot be reached, \<open>start\<close> returns normally after
  the validation call alone: no progress document is created, no scan is run and the
  timer is not set.
\<close>

theorem start_returns_silently:
  "(\<forall>r s'. start n e sc cc s = Some (r, s') \<longrightarrow> r = Inr ()) \<and>
   (getCode e (tick s) (contractAddress cc) = Inr ''0x'' \<or>
    isl (getCode e (tick s) (contractAddress cc)) \<longrightarrow>
      start n e sc cc s = Some (Inr (), called s))"
proof (intro conjI allI impI)
  fix r s'
  assume "start n e sc cc s = Some (r, s')"
  then show "r = Inr ()" by (rule start_no_error)
next
  assume "getCode e (tick s) (contractAddress cc) = Inr ''0x'' \<or>
    isl (getCode e (tick s) (contractAddress cc))"
  then show "start n e sc cc s = Some (Inr (), called s)" by (rule start_invalid)
qed

theorem start_returns_silently_witness:
  "getCode (noCode 5) (tick (idle [])) (contractAddress polygon) = Inr ''0x'' \<and>
   start 0 (noCode 5) smallBatches polygon (idle []) = Some (Inr (), called (idle [])) \<and>
   scanprogress (called (idle [])) = [] \<and> \<not> scanInterval (called (idle []))"
proof -
  have h: "getCode (noCode 5) (tick (idle [])) (contractAddress polygon) = Inr ''0x''"
    by (simp add: noCode_def quiet_def)
  have "start 0 (noCode 5) smallBatches polygon (idle []) = Some (Inr (), called (idle []))"
    using conjunct2 [OF start_returns_silently [of 0 "noCode 5" smallBatches polygon "idle []"]] h
    by simp
  then show ?thesis using h by (simp add: called_def idle_def)
qed

text \<open>
  The claim as written fails both ways: with no code at the address and with an endpoint
  that cannot be reached, \<open>start\<close> completes without an error.
\<close>

theorem start_no_configuration_error:
  "start 0 (noCode 5) smallBatches polygon (idle []) = Some (Inr (), called (idle [])) \<and>
   start 0 unreachable smallBatches polygon (idle []) = Some (Inr (), called (idle []))"
proof
  show "start 0 (noCode 5) smallBatches polygon (idle []) = Some (Inr (), called (idle []))"
    by (rule start_invalid) (simp add: noCode_def quiet_def)
  show "start 0 unreachable smallBatches polygon (idle []) = Some (Inr (), called (idle []))"
    by (rule start_invalid) (simp add: unreachable_def quiet_def)
qed
section \<open>Batch partitioning\<close>

lemma storeEvents_reliable:
  "\<not> dbDown e (tick s) \<Longrightarrow> fst (storeEvents e cc evs s) = Inr ()"
  using storeEvents_feeevents [of e cc evs s "fst (storeEvents e cc evs s)" "snd (storeEvents e cc evs s)"]
  by simp

lemma processBatch_reliable:
  assumes "reliable e" "processBatch e cc a b l s = (r, l', s')"
  shows "r = Inr ()"
  using assms(2)
proof (cases rule: processBatch_cases)
  case (scan_failed err s1)
  from scan_failed(1) show ?thesis
  proof (cases rule: scanBatch_cases)
    case (load_failed err' s1')
    then have "isl (queryFilter e (tick s) a b)"
      by (auto simp: loadFeeCollectorEvents_def Let_def split: sum.splits)
    then show ?thesis using assms(1) by (simp add: reliable_def)
  next
    case (store_failed raws s1' ps s2 err' s3)
    have "fst (storeEvents e cc ps s2) = Inr ()"
      using assms(1) by (intro storeEvents_reliable) (simp add: reliable_def)
    then show ?thesis using store_failed(4) by simp
  qed simp_all
next
  case (save_failed n s1 err s2)
  then show ?thesis using assms(1) by (auto simp: save_def reliable_def split: if_splits)
next
  case (saved n s1 s2)
  then show ?thesis by simp
qed

lemma scanLoop_reliable:
  assumes rel: "reliable e" and bs: "1 \<le> batchSize sc"
  shows "scanLoop n e sc cc currentBlock fromBlock l s = Some (r, l', s') \<Longrightarrow>
         r = Inr () \<and>
         fetched (calls s') = fetched (calls s) @ batchPartition (batchSize sc) fromBlock currentBlock"
proof (induction n arbitrary: fromBlock l s)
  case 0
  then show ?case
    by (cases "fromBlock \<le> currentBlock")
       (simp_all add: scanLoop.simps batchPartition.simps [of _ fromBlock])
next
  case (Suc m)
  show ?case
  proof (cases "fromBlock \<le> currentBlock")
    case False
    then show ?thesis using Suc.prems
      by (simp add: scanLoop_done batchPartition.simps [of _ fromBlock])
  next
    case True
    define toBlock where "toBlock = min (fromBlock + batchSize sc - 1) currentBlock"
    obtain r1 l1 s1 where pb: "processBatch e cc fromBlock toBlock l s = (r1, l1, s1)"
      by (cases "processBatch e cc fromBlock toBlock l s") auto
    have r1: "r1 = Inr ()" using processBatch_reliable [OF rel pb] .
    then have c1: "calls s1 = calls s @ [Fetch fromBlock toBlock, BatchStored fromBlock toBlock,
                                         Save (progress l1)]"
      using processBatch_calls [OF pb] by auto
    let ?s1 = "if toBlock + 1 \<le> currentBlock then delay 500 s1 else s1"
    have rec: "scanLoop m e sc cc currentBlock (toBlock + 1) l1 ?s1 = Some (r, l', s')"
      using Suc.prems pb r1 by (simp add: scanLoop_Suc [OF True] toBlock_def [symmetric])
    have f1: "fetched (calls ?s1) = fetched (calls s) @ [(fromBlock, toBlock)]"
      using c1 by (simp add: delay_def)
    have part: "batchPartition (batchSize sc) fromBlock currentBlock
                  = (fromBlock, toBlock) # batchPartition (batchSize sc) (toBlock + 1) currentBlock"
      using True bs by (subst batchPartition.simps) (simp add: toBlock_def)
    show ?thesis using Suc.IH [OF rec] f1 part by simp
  qed
qed

text \<open>
  C5, as the code has it. When the stored \<open>lastScannedBlock\<close> is at or above the chain
  height the cycle returns at once: no fetch call is made and the progress collection is
  unchanged. Otherwise, with a batch size of at least one and an environment in which no
  event query and no database call fails, the cycle ends normally and its fetch calls are
  exactly the partition of \<open>[lastScannedBlock + 1, height]\<close> into consecutive intervals of
  at most \<open>batchSize\<close> blocks, in increasing order.
\<close>

theorem fetch_calls_partition_the_range:
  assumes "\<not> isScanning s"
    and "getScanProgress e cc (s\<lparr>isScanning := True\<rparr>) = (Inr p, s1)"
    and "getCurrentBlockNumber e s1 = (Inr height, s2)"
  shows "(lastScannedBlock p \<ge> height \<longrightarrow>
            (\<forall>n. \<exists>s'. scanForNewEvents n e sc cc s = Some (Inr (), s') \<and>
                  fetched (calls s') = fetched (calls s) \<and> scanprogress s' = scanprogress s)) \<and>
         (reliable e \<and> 1 \<le> batchSize sc \<longrightarrow>
            (\<exists>n s'. scanForNewEvents n e sc cc s = Some (Inr (), s')) \<and>
            (\<forall>n r s'. scanForNewEvents n e sc cc s = Some (r, s') \<longrightarrow>
               r = Inr () \<and>
               fetched (calls s') = fetched (calls s) @
                 batchPartition (batchSize sc) (lastScannedBlock p + 1) height))"
proof -
  have c_s1: "calls s1 = calls s" and p_s1: "scanprogress s1 = scanprogress s"
    using getScanProgress_frame [OF assms(2)] by simp_all
  have f_s2: "fetched (calls s2) = fetched (calls s)"
    using getCurrentBlockNumber_fetched [OF assms(3)] c_s1 by simp
  have p_s2: "scanprogress s2 = scanprogress s"
    using getCurrentBlockNumberFrom_frame [OF assms(3) [unfolded getCurrentBlockNumber_def]] p_s1
    by simp
  have upto: "lastScannedBlock p \<ge> height \<longrightarrow>
            (\<forall>n. \<exists>s'. scanForNewEvents n e sc cc s = Some (Inr (), s') \<and>
                  fetched (calls s') = fetched (calls s) \<and> scanprogress s' = scanprogress s)"
    using assms f_s2 p_s2 by (simp add: scanForNewEvents_def scanBody_def)
  have part: "reliable e \<and> 1 \<le> batchSize sc \<longrightarrow>
            (\<exists>n s'. scanForNewEvents n e sc cc s = Some (Inr (), s')) \<and>
            (\<forall>n r s'. scanForNewEvents n e sc cc s = Some (r, s') \<longrightarrow>
               r = Inr () \<and>
               fetched (calls s') = fetched (calls s) @
                 batchPartition (batchSize sc) (lastScannedBlock p + 1) height)"
  proof
    assume a: "reliable e \<and> 1 \<le> batchSize sc"
    have each: "r = Inr () \<and>
               fetched (calls s') = fetched (calls s) @
                 batchPartition (batchSize sc) (lastScannedBlock p + 1) height"
      if run: "scanForNewEvents n e sc cc s = Some (r, s')" for n r s'
    proof (cases "lastScannedBlock p \<ge> height")
      case True
      then have "batchPartition (batchSize sc) (lastScannedBlock p + 1) height = []"
        by (simp add: batchPartition.simps [of _ "lastScannedBlock p + 1"])
      then show ?thesis using upto True run by (metis Pair_inject append_Nil2 option.inject)
    next
      case False
      let ?l = "\<lparr>progress = p, totalEvents = 0, totalBlocks = 0\<rparr>"
      obtain l3 s3 where loop:
        "scanLoop n e sc cc height (lastScannedBlock p + 1) ?l s2 = Some (r, l3, s3)"
        and s': "s' = s3\<lparr>isScanning := False\<rparr>"
        using run assms False
        by (auto simp: scanForNewEvents_def scanBody_def split: option.splits)
      show ?thesis
        using scanLoop_reliable [OF conjunct1 [OF a] conjunct2 [OF a] loop] f_s2 s' by simp
    qed
    obtain n r s' where ends: "scanForNewEvents n e sc cc s = Some (r, s')"
      using scanForNewEvents_ends [OF conjunct2 [OF a]] by blast
    then have "scanForNewEvents n e sc cc s = Some (Inr (), s')" using each by blast
    then show "(\<exists>n s'. scanForNewEvents n e sc cc s = Some (Inr (), s')) \<and>
            (\<forall>n r s'. scanForNewEvents n e sc cc s = Some (r, s') \<longrightarrow>
               r = Inr () \<and>
               fetched (calls s') = fetched (calls s) @
                 batchPartition (batchSize sc) (lastScannedBlock p + 1) height)"
      using each by blast
  qed
  show ?thesis using upto part by blast
qed

lemma quiet_prelude:
  "\<exists>s1 s2. getScanProgress (quiet 5) polygon ((idle [progressAt p0])\<lparr>isScanning := True\<rparr>)
             = (Inr (progressAt p0), s1) \<and>
           getCurrentBlockNumber (quiet 5) s1 = (Inr 5, s2)"
  by (simp add: run_defs fixture_defs cong: weak_congs)

lemma reliable_quiet: "reliable (quiet h)"
  by (simp add: reliable_def quiet_def)

lemma batchPartition_2_1_5: "batchPartition 2 1 5 = [(1, 2), (3, 4), (5, 5)]"
  by (simp add: batchPartition.simps)

theorem fetch_calls_partition_the_range_witness:
  "\<not> isScanning (idle [progressAt 0]) \<and> reliable (quiet 5) \<and> 1 \<le> batchSize smallBatches \<and>
   (\<exists>s1 s2. getScanProgress (quiet 5) polygon ((idle [progressAt 0])\<lparr>isScanning := True\<rparr>)
               = (Inr (progressAt 0), s1) \<and>
            getCurrentBlockNumber (quiet 5) s1 = (Inr 5, s2)) \<and>
   (\<exists>n s'. scanForNewEvents n (quiet 5) smallBatches polygon (idle [progressAt 0])
              = Some (Inr (), s') \<and>
            fetched (calls s') = [(1, 2), (3, 4), (5, 5)]) \<and>
   (\<exists>s'. scanForNewEvents 0 (quiet 5) smallBatches polygon (idle [progressAt 5])
            = Some (Inr (), s') \<and>
          fetched (calls s') = [] \<and> scanprogress s' = [progressAt 5])"
proof -
  have idle0: "\<not> isScanning (idle [progressAt p0])" for p0 by (simp add: idle_def)
  have bs: "1 \<le> batchSize smallBatches" by (simp add: smallBatches_def)
  have width: "batchSize smallBatches = 2" by (simp add: smallBatches_def)
  have from0: "lastScannedBlock (progressAt 0) + 1 = 1" by (simp add: progressAt_def)
  have start0: "fetched (calls (idle [progressAt p0])) = []"
    "scanprogress (idle [progressAt p0]) = [progressAt p0]" for p0
    by (simp_all add: idle_def)
  obtain s1 s2 where pre:
    "getScanProgress (quiet 5) polygon ((idle [progressAt 0])\<lparr>isScanning := True\<rparr>)
       = (Inr (progressAt 0), s1)"
    "getCurrentBlockNumber (quiet 5) s1 = (Inr 5, s2)"
    using quiet_prelude [of 0] by (elim exE conjE)
  note inst = fetch_calls_partition_the_range [OF idle0 pre, of smallBatches]
  have run: "\<exists>n s'. scanForNewEvents n (quiet 5) smallBatches polygon (idle [progressAt 0])
              = Some (Inr (), s') \<and>
            fetched (calls s') = [(1, 2), (3, 4), (5, 5)]"
  proof -
    note part = mp [OF conjunct2 [OF inst] conjI [OF reliable_quiet bs]]
    obtain n s' where ends:
      "scanForNewEvents n (quiet 5) smallBatches polygon (idle [progressAt 0]) = Some (Inr (), s')"
      using conjunct1 [OF part] by (elim exE)
    have "fetched (calls s') = fetched (calls (idle [progressAt 0])) @
            batchPartition (batchSize smallBatches) (lastScannedBlock (progressAt 0) + 1) 5"
      using conjunct2 [OF part] ends by blast
    then have "fetched (calls s') = [(1, 2), (3, 4), (5, 5)]"
      by (simp only: start0 from0 width batchPartition_2_1_5 append_Nil)
    then show ?thesis using ends by blast
  qed
  obtain t1 t2 where pre5:
    "getScanProgress (quiet 5) polygon ((idle [progressAt 5])\<lparr>isScanning := True\<rparr>)
       = (Inr (progressAt 5), t1)"
    "getCurrentBlockNumber (quiet 5) t1 = (Inr 5, t2)"
    using quiet_prelude [of 5] by (elim exE conjE)
  note inst5 = fetch_calls_partition_the_range [OF idle0 pre5, of smallBatches]
  have "lastScannedBlock (progressAt 5) \<ge> 5" by (simp add: progressAt_def)
  then have "\<exists>s'. scanForNewEvents 0 (quiet 5) smallBatches polygon (idle [progressAt 5])
            = Some (Inr (), s') \<and>
          fetched (calls s') = fetched (calls (idle [progressAt 5])) \<and>
          scanprogress s' = scanprogress (idle [progressAt 5])"
    using conjunct1 [OF inst5] by blast
  then have uptodate: "\<exists>s'. scanForNewEvents 0 (quiet 5) smallBatches polygon (idle [progressAt 5])
            = Some (Inr (), s') \<and>
          fetched (calls s') = [] \<and> scanprogress s' = [progressAt 5]"
    by (simp add: start0)
  have pre_ex: "\<exists>s1 s2. getScanProgress (quiet 5) polygon ((idle [progressAt 0])\<lparr>isScanning := True\<rparr>)
               = (Inr (progressAt 0), s1) \<and>
            getCurrentBlockNumber (quiet 5) s1 = (Inr 5, s2)"
    by (rule quiet_prelude)
  show ?thesis by (intro conjI idle0 reliable_quiet bs pre_ex run uptodate)
qed

lemma flaky_run:
  "\<exists>s'. scanForNewEvents (Suc (Suc (Suc 0))) (flaky 5) smallBatches polygon (idle [progressAt 0])
           = Some (Inr (), s') \<and>
         fetched (calls s') = [(1, 2), (1, 2), (3, 4), (5, 5)]"
  by (simp add: run_defs fixture_defs flaky_def cong: weak_congs)

text \<open>
  The claim as written fails when a batch fails: the retry fetches the same range again.
  Below the first query for \<open>[1, 2]\<close> is answered with an error; the cycle completes
  normally and has made four fetch calls, not the three of the partition.
\<close>

theorem retried_batch_is_fetched_again:
  "fst (the (scanForNewEvents (Suc (Suc (Suc 0))) (flaky 5) smallBatches polygon
               (idle [progressAt 0]))) = Inr () \<and>
   fetched (calls (snd (the (scanForNewEvents (Suc (Suc (Suc 0))) (flaky 5) smallBatches polygon
                               (idle [progressAt 0])))))
     = [(1, 2), (1, 2), (3, 4), (5, 5)] \<and>
   batchPartition (batchSize smallBatches) (lastScannedBlock (progressAt 0) + 1) 5
     = [(1, 2), (3, 4), (5, 5)]"
proof -
  obtain s' where run:
    "scanForNewEvents (Suc (Suc (Suc 0))) (flaky 5) smallBatches polygon (idle [progressAt 0])
       = Some (Inr (), s')"
    and f: "fetched (calls s') = [(1, 2), (1, 2), (3, 4), (5, 5)]"
    using flaky_run by (elim exE conjE)
  have width: "batchSize smallBatches = 2" by (simp add: smallBatches_def)
  have from0: "lastScannedBlock (progressAt 0) + 1 = 1" by (simp add: progressAt_def)
  show ?thesis
    by (simp add: run f width from0 batchPartition_2_1_5)
qed
section \<open>The batch loop with at least one retry\<close>

lemma retryWithBackoff_result:
  "(\<And>l s l' s'. A l s \<Longrightarrow> operation l s = (Inr (), l', s') \<Longrightarrow> B l' s') \<Longrightarrow>
   (\<And>l s err l' s'. A l s \<Longrightarrow> operation l s = (Inl err, l', s') \<Longrightarrow> A l' s') \<Longrightarrow>
   (\<And>ms l s. A l s \<Longrightarrow> A l (delay ms s)) \<Longrightarrow>
   A l s \<Longrightarrow> attempt \<le> maxRetries sc \<Longrightarrow>
   retryWithBackoff sc operation attempt l s = (r, l', s') \<Longrightarrow>
   (case r of Inr u \<Rightarrow> B l' s' | Inl err \<Rightarrow> A l' s')"
proof (induction sc operation attempt l s rule: retryWithBackoff.induct)
  case (1 sc operation attempt l s)
  note ok = "1.prems"(1) and fail = "1.prems"(2) and pause = "1.prems"(3)
    and a = "1.prems"(4) and le = "1.prems"(5) and run = "1.prems"(6)
  obtain r1 l1 s1 where op: "operation l s = (r1, l1, s1)"
    by (cases "operation l s") auto
  show ?case
  proof (cases r1)
    case (Inr u)
    then have "operation l s = (Inr (), l1, s1)" using op by simp
    then have "B l1 s1" using ok a by blast
    moreover have "retryWithBackoff sc operation attempt l s = (Inr (), l1, s1)"
      by (subst retryWithBackoff.simps) (simp add: le op Inr)
    ultimately show ?thesis using run by simp
  next
    case (Inl err)
    have a1: "A l1 s1" using fail [OF a op [unfolded Inl]] .
    show ?thesis
    proof (cases "attempt = maxRetries sc")
      case True
      have "retryWithBackoff sc operation attempt l s = (Inl err, l1, s1)"
        by (subst retryWithBackoff.simps) (simp add: le op Inl True)
      then show ?thesis using run a1 by simp
    next
      case more: False
      have rec: "retryWithBackoff sc operation (attempt + 1) l1
                   (delay (retryDelayMs sc * 2 ^ nat (attempt - 1)) s1) = (r, l', s')"
        using run le op Inl more by (simp add: retryWithBackoff.simps [of sc operation attempt])
      have le': "attempt + 1 \<le> maxRetries sc" using le more by simp
      show ?thesis
        by (rule "1.IH" [OF le op [symmetric] Inl refl more ok fail pause pause [OF a1] le' rec])
    qed
  qed
qed

lemma scanLoop_batches:
  assumes ok: "\<And>a b l s l' s'. I a l s \<or> F a b l s \<Longrightarrow> a \<le> currentBlock \<Longrightarrow>
                 b = min (a + batchSize sc - 1) currentBlock \<Longrightarrow>
                 processBatch e cc a b l s = (Inr (), l', s') \<Longrightarrow> I (b + 1) l' s'"
    and fail: "\<And>a b l s err l' s'. I a l s \<or> F a b l s \<Longrightarrow> a \<le> currentBlock \<Longrightarrow>
                 b = min (a + batchSize sc - 1) currentBlock \<Longrightarrow>
                 processBatch e cc a b l s = (Inl err, l', s') \<Longrightarrow> F a b l' s'"
    and pauseI: "\<And>a ms l s. I a l s \<Longrightarrow> I a l (delay ms s)"
    and pauseF: "\<And>a b ms l s. F a b l s \<Longrightarrow> F a b l (delay ms s)"
    and retries: "1 \<le> maxRetries sc"
  shows "I fromBlock l s \<Longrightarrow>
         scanLoop n e sc cc currentBlock fromBlock l s = Some (r, l', s') \<Longrightarrow>
         (case r of Inr u \<Rightarrow> \<exists>a. I a l' s' | Inl err \<Rightarrow> \<exists>a b. F a b l' s')"
proof (induction n arbitrary: fromBlock l s)
  case 0
  then show ?case
    by (cases "fromBlock \<le> currentBlock") (auto simp: scanLoop.simps)
next
  case (Suc m)
  show ?case
  proof (cases "fromBlock \<le> currentBlock")
    case False
    then show ?thesis using Suc.prems by (auto simp: scanLoop_done)
  next
    case True
    define toBlock where "toBlock = min (fromBlock + batchSize sc - 1) currentBlock"
    obtain r1 l1 s1 where pb: "processBatch e cc fromBlock toBlock l s = (r1, l1, s1)"
      by (cases "processBatch e cc fromBlock toBlock l s") auto
    show ?thesis
    proof (cases r1)
      case (Inr u)
      then have pb': "processBatch e cc fromBlock toBlock l s = (Inr (), l1, s1)"
        using pb by simp
      have i1: "I (toBlock + 1) l1 s1"
        using ok [OF disjI1 [OF Suc.prems(1)] True toBlock_def pb'] .
      let ?s1 = "if toBlock + 1 \<le> currentBlock then delay 500 s1 else s1"
      have i1': "I (toBlock + 1) l1 ?s1" using i1 pauseI by simp
      have rec: "scanLoop m e sc cc currentBlock (toBlock + 1) l1 ?s1 = Some (r, l', s')"
        using Suc.prems(2) pb Inr by (simp add: scanLoop_Suc [OF True] toBlock_def [symmetric])
      show ?thesis using Suc.IH [OF i1' rec] .
    next
      case (Inl err)
      have f1: "F fromBlock toBlock l1 s1"
        using fail [OF disjI1 [OF Suc.prems(1)] True toBlock_def pb [unfolded Inl]] .
      obtain r2 l2 s2 where rb:
        "retryWithBackoff sc (processBatch e cc fromBlock toBlock) 1 l1 s1 = (r2, l2, s2)"
        by (cases "retryWithBackoff sc (processBatch e cc fromBlock toBlock) 1 l1 s1") auto
      have res: "case r2 of Inr u \<Rightarrow> I (toBlock + 1) l2 s2 | Inl err \<Rightarrow> F fromBlock toBlock l2 s2"
      proof (rule retryWithBackoff_result
                [where A = "F fromBlock toBlock" and B = "I (toBlock + 1)", OF _ _ _ f1 retries rb])
        fix l s l' s'
        assume "F fromBlock toBlock l s"
          "processBatch e cc fromBlock toBlock l s = (Inr (), l', s')"
        then show "I (toBlock + 1) l' s'" using ok True toBlock_def by blast
      next
        fix l s err l' s'
        assume "F fromBlock toBlock l s"
          "processBatch e cc fromBlock toBlock l s = (Inl err, l', s')"
        then show "F fromBlock toBlock l' s'" using fail True toBlock_def by blast
      next
        fix ms l s
        assume "F fromBlock toBlock l s"
        then show "F fromBlock toBlock l (delay ms s)" by (rule pauseF)
      qed
      show ?thesis
      proof (cases r2)
        case err2: (Inl err')
        then have "(r, l', s') = (Inl err', l2, s2)"
          using Suc.prems(2) pb Inl rb by (simp add: scanLoop_Suc [OF True] toBlock_def [symmetric])
        then show ?thesis using res err2 by auto
      next
        case (Inr u)
        then have rec: "scanLoop m e sc cc currentBlock (toBlock + 1) l2 s2 = Some (r, l', s')"
          using Suc.prems(2) pb Inl rb by (simp add: scanLoop_Suc [OF True] toBlock_def [symmetric])
        have "I (toBlock + 1) l2 s2" using res Inr by simp
        then show ?thesis using Suc.IH rec by blast
      qed
    qed
  qed
qed
section \<open>Progress stays within the completed batches\<close>

lemma covered_iff: "covered rs lo hi \<longleftrightarrow> (\<forall>b. lo < b \<and> b \<le> hi \<longrightarrow> covers rs b)"
  by (auto simp: covered_def list_all_iff)

lemma covers_append: "covers (rs @ rs') b \<longleftrightarrow> covers rs b \<or> covers rs' b"
  by (auto simp: covers_def list_ex_iff)

lemma covers_single: "covers [(a, b)] x \<longleftrightarrow> a \<le> x \<and> x \<le> b"
  by (simp add: covers_def)

lemma covered_append: "covered rs lo hi \<Longrightarrow> covered (rs @ rs') lo hi"
  by (simp add: covered_iff covers_append)

lemma covered_extend: "covered rs lo (a - 1) \<Longrightarrow> covered (rs @ [(a, b)]) lo b"
  unfolding covered_iff covers_append covers_single by (metis not_less zle_diff1_eq)

lemma covered_max: "covered rs lo x \<Longrightarrow> covered rs lo y \<Longrightarrow> covered rs lo (max x y)"
  by (auto simp: covered_iff max_def)

lemma covered_empty: "hi \<le> lo \<Longrightarrow> covered rs lo hi"
  by (auto simp: covered_iff)

lemma progressSafe_append:
  "progressSafe lo rs (xs @ ys) \<longleftrightarrow>
     progressSafe lo rs xs \<and> progressSafe lo (rs @ storedRanges xs) ys"
  by (induction lo rs xs rule: progressSafe.induct) auto

lemma progressSafe_Delays [simp]: "progressSafe lo rs (map Delay ds)"
  by (induction ds) auto

definition safe_inv :: "call list \<Rightarrow> int \<Rightarrow> int \<Rightarrow> locals \<Rightarrow> state \<Rightarrow> bool" where
  "safe_inv c0 lo a l s \<longleftrightarrow>
     (\<exists>new. calls s = c0 @ new \<and> progressSafe lo [] new \<and>
            covered (storedRanges new) lo (a - 1) \<and>
            covered (storedRanges new) lo (lastScannedBlock (progress l)))"

lemma safe_inv_delay: "safe_inv c0 lo a l s \<Longrightarrow> safe_inv c0 lo a l (delay ms s)"
  unfolding safe_inv_def
proof (elim exE conjE)
  fix new
  assume "calls s = c0 @ new" "progressSafe lo [] new"
    "covered (storedRanges new) lo (a - 1)"
    "covered (storedRanges new) lo (lastScannedBlock (progress l))"
  then have "calls (delay ms s) = c0 @ (new @ [Delay ms]) \<and> progressSafe lo [] (new @ [Delay ms]) \<and>
    covered (storedRanges (new @ [Delay ms])) lo (a - 1) \<and>
    covered (storedRanges (new @ [Delay ms])) lo (lastScannedBlock (progress l))"
    by (simp add: delay_def progressSafe_append)
  then show "\<exists>new. calls (delay ms s) = c0 @ new \<and> progressSafe lo [] new \<and>
    covered (storedRanges new) lo (a - 1) \<and>
    covered (storedRanges new) lo (lastScannedBlock (progress l))"
    by blast
qed

lemma safe_inv_ok:
  assumes "safe_inv c0 lo a l s" "processBatch e cc a b l s = (Inr (), l', s')"
  shows "safe_inv c0 lo (b + 1) l' s'"
proof -
  obtain new where n: "calls s = c0 @ new" "progressSafe lo [] new"
    "covered (storedRanges new) lo (a - 1)"
    "covered (storedRanges new) lo (lastScannedBlock (progress l))"
    using assms(1) unfolding safe_inv_def by blast
  have c: "calls s' = calls s @ [Fetch a b, BatchStored a b, Save (progress l')]"
    and m: "lastScannedBlock (progress l') = max (lastScannedBlock (progress l)) b"
    using processBatch_calls [OF assms(2)] by auto
  let ?new = "new @ [Fetch a b, BatchStored a b, Save (progress l')]"
  have cb: "covered (storedRanges new @ [(a, b)]) lo b" using n(3) by (rule covered_extend)
  have cl: "covered (storedRanges new @ [(a, b)]) lo (lastScannedBlock (progress l'))"
    unfolding m using covered_append [OF n(4)] cb by (rule covered_max)
  have "calls s' = c0 @ ?new" using c n(1) by simp
  moreover have "progressSafe lo [] ?new" using n(2) cl by (simp add: progressSafe_append)
  moreover have "covered (storedRanges ?new) lo (b + 1 - 1)" using cb by simp
  moreover have "covered (storedRanges ?new) lo (lastScannedBlock (progress l'))" using cl by simp
  ultimately show ?thesis unfolding safe_inv_def by blast
qed

lemma safe_inv_fail:
  assumes "safe_inv c0 lo a l s" "processBatch e cc a b l s = (Inl err, l', s')"
  shows "safe_inv c0 lo a l' s'"
proof -
  obtain new where n: "calls s = c0 @ new" "progressSafe lo [] new"
    "covered (storedRanges new) lo (a - 1)"
    "covered (storedRanges new) lo (lastScannedBlock (progress l))"
    using assms(1) unfolding safe_inv_def by blast
  consider (scan) "l' = l" "calls s' = calls s @ [Fetch a b]"
    | (save) "calls s' = calls s @ [Fetch a b, BatchStored a b]"
        "lastScannedBlock (progress l') = max (lastScannedBlock (progress l)) b"
    using processBatch_calls [OF assms(2)] by auto
  then show ?thesis
  proof cases
    case scan
    let ?new = "new @ [Fetch a b]"
    have "calls s' = c0 @ ?new \<and> progressSafe lo [] ?new \<and>
          covered (storedRanges ?new) lo (a - 1) \<and>
          covered (storedRanges ?new) lo (lastScannedBlock (progress l'))"
      using scan n by (simp add: progressSafe_append)
    then show ?thesis unfolding safe_inv_def by blast
  next
    case save
    let ?new = "new @ [Fetch a b, BatchStored a b]"
    have cb: "covered (storedRanges new @ [(a, b)]) lo b" using n(3) by (rule covered_extend)
    have cl: "covered (storedRanges new @ [(a, b)]) lo (lastScannedBlock (progress l'))"
      unfolding save(2) using covered_append [OF n(4)] cb by (rule covered_max)
    have "calls s' = c0 @ ?new \<and> progressSafe lo [] ?new \<and>
          covered (storedRanges ?new) lo (a - 1) \<and>
          covered (storedRanges ?new) lo (lastScannedBlock (progress l'))"
      using save(1) n cl covered_append [OF n(3)] by (simp add: progressSafe_append)
    then show ?thesis unfolding safe_inv_def by blast
  qed
qed

lemma scanLoop_progressSafe:
  assumes retries: "1 \<le> maxRetries sc"
    and init: "safe_inv c0 lo fromBlock l s"
    and run: "scanLoop n e sc cc currentBlock fromBlock l s = Some (r, l', s')"
  shows "\<exists>new. calls s' = c0 @ new \<and> progressSafe lo [] new"
proof -
  have ok: "\<And>a b l s l' s'. safe_inv c0 lo a l s \<or> safe_inv c0 lo a l s \<Longrightarrow> a \<le> currentBlock \<Longrightarrow>
                 b = min (a + batchSize sc - 1) currentBlock \<Longrightarrow>
                 processBatch e cc a b l s = (Inr (), l', s') \<Longrightarrow> safe_inv c0 lo (b + 1) l' s'"
    using safe_inv_ok by blast
  have fail: "\<And>a b l s err l' s'. safe_inv c0 lo a l s \<or> safe_inv c0 lo a l s \<Longrightarrow> a \<le> currentBlock \<Longrightarrow>
                 b = min (a + batchSize sc - 1) currentBlock \<Longrightarrow>
                 processBatch e cc a b l s = (Inl err, l', s') \<Longrightarrow> safe_inv c0 lo a l' s'"
    using safe_inv_fail by blast
  have pauseI: "\<And>a ms l s. safe_inv c0 lo a l s \<Longrightarrow> safe_inv c0 lo a l (delay ms s)"
    by (rule safe_inv_delay)
  have pauseF: "\<And>a (b::int) ms l s. safe_inv c0 lo a l s \<Longrightarrow> safe_inv c0 lo a l (delay ms s)"
    by (rule safe_inv_delay)
  have "case r of Inr u \<Rightarrow> \<exists>a. safe_inv c0 lo a l' s'
              | Inl err \<Rightarrow> \<exists>a (b::int). safe_inv c0 lo a l' s'"
    using scanLoop_batches [where I = "safe_inv c0 lo" and F = "\<lambda>a b. safe_inv c0 lo a",
          OF ok fail pauseI pauseF retries init run] .
  then have "\<exists>a. safe_inv c0 lo a l' s'" by (cases r) auto
  then show ?thesis unfolding safe_inv_def by blast
qed

text \<open>
  With at least one retry configured, every scan cycle keeps the stored progress within
  the completed batches: at each successful save of the cycle, all blocks above the
  \<open>lastScannedBlock\<close> the cycle started from and up to the saved \<open>lastScannedBlock\<close>
  belong to batches that had completed (events fetched and handed to the store) before
  that save.
\<close>

lemma scan_progressSafe:
  assumes retries: "1 \<le> maxRetries sc"
    and idle: "\<not> isScanning s"
    and p: "progressOf cc s = Some p"
    and run: "scanForNewEvents n e sc cc s = Some (r, s')"
  shows "\<exists>new. calls s' = calls s @ new \<and> progressSafe (lastScannedBlock p) [] new"
proof -
  let ?s0 = "s\<lparr>isScanning := True\<rparr>"
  obtain s1 where body: "scanBody n e sc cc ?s0 = Some (r, s1)" and s': "s' = s1\<lparr>isScanning := False\<rparr>"
    using run idle by (auto simp: scanForNewEvents_def split: option.splits)
  obtain r1 t1 where g: "getScanProgress e cc ?s0 = (r1, t1)"
    by (cases "getScanProgress e cc ?s0")
  have c1: "calls t1 = calls s" using getScanProgress_frame [OF g] by simp
  show ?thesis
  proof (cases r1)
    case (Inl err)
    then have "s1 = t1" using body g by (simp add: scanBody_def)
    then show ?thesis using c1 s' by (intro exI [of _ "[]"]) simp
  next
    case found: (Inr q)
    have "progressOf cc ?s0 = Some q"
      using getScanProgress_found [OF g [unfolded found]] by (simp add: progressOf_def)
    then have q: "q = p" using p by (simp add: progressOf_def)
    obtain r2 t2 where h: "getCurrentBlockNumber e t1 = (r2, t2)"
      by (cases "getCurrentBlockNumber e t1")
    obtain ds where c2: "calls t2 = calls s @ map Delay ds"
      using getCurrentBlockNumberFrom_calls [OF h [unfolded getCurrentBlockNumber_def]] c1
      by auto
    show ?thesis
    proof (cases r2)
      case (Inl err)
      then have "s1 = t2" using body g found h by (simp add: scanBody_def)
      then show ?thesis using c2 s' by (intro exI [of _ "map Delay ds"]) simp
    next
      case (Inr cb)
      show ?thesis
      proof (cases "lastScannedBlock q \<ge> cb")
        case True
        then have "s1 = t2" using body g found h Inr by (simp add: scanBody_def)
        then show ?thesis using c2 s' by (intro exI [of _ "map Delay ds"]) simp
      next
        case False
        let ?l = "\<lparr>progress = q, totalEvents = 0, totalBlocks = 0\<rparr>"
        obtain l3 where loop:
          "scanLoop n e sc cc cb (lastScannedBlock q + 1) ?l t2 = Some (r, l3, s1)"
          using body g found h Inr False by (auto simp: scanBody_def split: option.splits)
        have init: "safe_inv (calls s) (lastScannedBlock p) (lastScannedBlock q + 1) ?l t2"
          unfolding safe_inv_def
          by (intro exI [of _ "map Delay ds"]) (simp add: c2 q covered_empty)
        obtain new where "calls s1 = calls s @ new" "progressSafe (lastScannedBlock p) [] new"
          using scanLoop_progressSafe [OF retries init loop] by blast
        then show ?thesis using s' by auto
      qed
    qed
  qed
qed

section \<open>A configuration without retries: a failed batch is passed over\<close>

lemma skipped_batch_run:
  "\<exists>s'. scanForNewEvents (Suc (Suc 0)) (firstRangeFails 4) noRetries polygon
           (idle [progressAt 0]) = Some (Inr (), s') \<and>
         map lastScannedBlock (scanprogress s') = [4] \<and>
         fetched (calls s') = [(1, 2), (3, 4)] \<and>
         storedRanges (calls s') = [(3, 4)] \<and>
         \<not> progressSafe 0 [] (calls s')"
  by (simp add: run_defs fixture_defs firstRangeFails_def noRetries_def covered_def covers_def
        upto.simps cong: weak_congs)

text \<open>
  C1 at \<open>maxRetries = 0\<close>. The loop of \<open>retryWithBackoff\<close> does not run and the function
  returns normally, so the batch loop moves on to the next range as if the failed batch
  had been retried with success. Here the endpoint refuses the range \<open>[1, 2]\<close> and serves
  \<open>[3, 4]\<close>: the cycle returns normally, the only completed batch is \<open>[3, 4]\<close>, and the
  stored \<open>lastScannedBlock\<close> is 4, past the blocks 1 and 2 whose events were never
  fetched. (With \<open>maxRetries \<ge> 1\<close> this cannot happen: \<open>scan_progressSafe\<close>.)
\<close>

theorem progress_passes_skipped_batch:
  "fst (the (scanForNewEvents (Suc (Suc 0)) (firstRangeFails 4) noRetries polygon
               (idle [progressAt 0]))) = Inr () \<and>
   map lastScannedBlock
     (scanprogress (snd (the (scanForNewEvents (Suc (Suc 0)) (firstRangeFails 4) noRetries polygon
                                (idle [progressAt 0]))))) = [4] \<and>
   storedRanges
     (calls (snd (the (scanForNewEvents (Suc (Suc 0)) (firstRangeFails 4) noRetries polygon
                         (idle [progressAt 0]))))) = [(3, 4)] \<and>
   \<not> progressSafe 0 []
     (calls (snd (the (scanForNewEvents (Suc (Suc 0)) (firstRangeFails 4) noRetries polygon
                         (idle [progressAt 0])))))"
proof -
  obtain s' where
    "scanForNewEvents (Suc (Suc 0)) (firstRangeFails 4) noRetries polygon (idle [progressAt 0])
       = Some (Inr (), s')"
    "map lastScannedBlock (scanprogress s') = [4]"
    "storedRanges (calls s') = [(3, 4)]"
    "\<not> progressSafe 0 [] (calls s')"
    using skipped_batch_run by (elim exE conjE)
  then show ?thesis by simp
qed
section \<open>Retries and their delays\<close>

lemma delays_append [simp]: "delays (xs @ ys) = delays xs @ delays ys"
  by (induction xs rule: delays.induct) auto

lemma processBatch_attempt:
  assumes "processBatch e cc a b l s = (r, l', s')"
  shows "\<exists>new. calls s' = calls s @ new \<and> fetched new = [(a, b)] \<and> delays new = []"
proof -
  consider "calls s' = calls s @ [Fetch a b, BatchStored a b, Save (progress l')]"
    | "calls s' = calls s @ [Fetch a b]"
    | "calls s' = calls s @ [Fetch a b, BatchStored a b]"
    using processBatch_calls [OF assms] by auto
  then show ?thesis
  proof cases
    case 1
    then show ?thesis
      by (intro exI [of _ "[Fetch a b, BatchStored a b, Save (progress l')]"]) simp
  next
    case 2
    then show ?thesis by (intro exI [of _ "[Fetch a b]"]) simp
  next
    case 3
    then show ?thesis by (intro exI [of _ "[Fetch a b, BatchStored a b]"]) simp
  qed
qed

text \<open>
  The shape of \<open>retryWithBackoff\<close> around a batch, entered at attempt \<open>k\<close> with
  \<open>k \<le> maxRetries\<close>: it makes \<open>m \<ge> 1\<close> attempts, numbered \<open>k, \<dots>, k + m - 1 \<le> maxRetries\<close>,
  each of which fetches the same range once; after the failed attempt \<open>j\<close> and before
  attempt \<open>j + 1\<close> it pauses for \<open>retryDelayMs * 2 ^ (j - 1)\<close>; and it returns an error
  only after attempt \<open>maxRetries\<close> has failed.
\<close>

lemma retry_attempts_and_delays:
  "k \<le> maxRetries sc \<Longrightarrow>
   retryWithBackoff sc (processBatch e cc a b) k l s = (r, l', s') \<Longrightarrow>
   \<exists>m new. calls s' = calls s @ new \<and> 1 \<le> m \<and> k + int m - 1 \<le> maxRetries sc \<and>
     fetched new = replicate m (a, b) \<and>
     delays new = map (\<lambda>j. retryDelayMs sc * 2 ^ nat (j - 1)) [k..k + int m - 2] \<and>
     (isl r \<longrightarrow> k + int m - 1 = maxRetries sc)"
proof (induction sc "processBatch e cc a b" k l s rule: retryWithBackoff.induct)
  case (1 sc k l s)
  note le = "1.prems"(1) and run = "1.prems"(2)
  let ?d = "\<lambda>j. retryDelayMs sc * 2 ^ nat (j - 1)"
  obtain r1 l1 s1 where op: "processBatch e cc a b l s = (r1, l1, s1)"
    by (cases "processBatch e cc a b l s") auto
  obtain new1 where n1: "calls s1 = calls s @ new1" "fetched new1 = [(a, b)]" "delays new1 = []"
    using processBatch_attempt [OF op] by blast
  have once: "calls s1 = calls s @ new1 \<and> (1::nat) \<le> 1 \<and> k + int 1 - 1 \<le> maxRetries sc \<and>
     fetched new1 = replicate 1 (a, b) \<and> delays new1 = map ?d [k..k + int 1 - 2]"
    using n1 le by simp
  show ?case
  proof (cases r1)
    case (Inr u)
    have "retryWithBackoff sc (processBatch e cc a b) k l s = (Inr (), l1, s1)"
      by (subst retryWithBackoff.simps) (simp add: le op Inr)
    then have "s' = s1" "\<not> isl r" using run by auto
    then show ?thesis using once by blast
  next
    case (Inl err)
    show ?thesis
    proof (cases "k = maxRetries sc")
      case True
      have "retryWithBackoff sc (processBatch e cc a b) k l s = (Inl err, l1, s1)"
        by (subst retryWithBackoff.simps) (simp add: le op Inl True)
      then have "s' = s1" using run by auto
      moreover have "k + int 1 - 1 = maxRetries sc" using True by simp
      ultimately show ?thesis using once by blast
    next
      case more: False
      let ?s1 = "delay (?d k) s1"
      have rec: "retryWithBackoff sc (processBatch e cc a b) (k + 1) l1 ?s1 = (r, l', s')"
        using run le op Inl more
        by (simp add: retryWithBackoff.simps [of sc "processBatch e cc a b" k])
      have le': "k + 1 \<le> maxRetries sc" using le more by simp
      obtain m new where ih: "calls s' = calls ?s1 @ new" "1 \<le> m"
        "k + 1 + int m - 1 \<le> maxRetries sc" "fetched new = replicate m (a, b)"
        "delays new = map ?d [k + 1..k + 1 + int m - 2]"
        "isl r \<longrightarrow> k + 1 + int m - 1 = maxRetries sc"
        using "1.hyps" [OF le op [symmetric] Inl refl more le' rec] by blast
      let ?new = "new1 @ [Delay (?d k)] @ new"
      have c: "calls s' = calls s @ ?new" using ih(1) n1(1) by (simp add: delay_def)
      have f: "fetched ?new = replicate (Suc m) (a, b)" using n1(2) ih(4) by simp
      have up: "[k..k + int m - 1] = k # [k + 1..k + int m - 1]"
        using ih(2) by (subst upto_rec1) simp_all
      have d: "delays ?new = map ?d [k..k + int (Suc m) - 2]"
        using n1(3) ih(5) by (simp add: up)
      have b1: "k + int (Suc m) - 1 \<le> maxRetries sc" using ih(3) by simp
      have b2: "isl r \<longrightarrow> k + int (Suc m) - 1 = maxRetries sc" using ih(6) by simp
      have "calls s' = calls s @ ?new \<and> 1 \<le> Suc m \<and> k + int (Suc m) - 1 \<le> maxRetries sc \<and>
            fetched ?new = replicate (Suc m) (a, b) \<and>
            delays ?new = map ?d [k..k + int (Suc m) - 2] \<and>
            (isl r \<longrightarrow> k + int (Suc m) - 1 = maxRetries sc)"
        using c f d b1 b2 by simp
      then show ?thesis by blast
    qed
  qed
qed
section \<open>Progress after exhausted retries\<close>

lemma processBatch_failed_store:
  assumes "processBatch e cc a b l s = (Inl err, l', s')"
  shows "scanprogress s' = scanprogress s \<and> chain (progress l') = chain (progress l)"
  using assms
proof (cases rule: processBatch_cases)
  case (scan_failed err' s1)
  then show ?thesis using scanBatch_scanprogress [OF scan_failed(1)] by simp
next
  case (save_failed n s1 err' s2)
  have "scanprogress s2 = scanprogress s1"
    using save_failed(3) by (auto simp: save_def called_def split: if_splits)
  then show ?thesis
    using scanBatch_scanprogress [OF save_failed(1)] save_failed(2,5)
    by (simp add: afterBatch_def)
next
  case (saved n s1 s2)
  then show ?thesis by simp
qed

lemma processBatch_saved_store:
  assumes "processBatch e cc a b l s = (Inr (), l', s')"
  shows "scanprogress s' =
           map (\<lambda>q. if chain q = chain (progress l') then progress l' else q) (scanprogress s) \<and>
         chain (progress l') = chain (progress l)"
  using assms
proof (cases rule: processBatch_cases)
  case (saved n s1 s2)
  have "scanprogress s2 =
          map (\<lambda>q. if chain q = chain (progress l') then progress l' else q) (scanprogress s1)"
    using saved(2,3) by (auto simp: save_def called_def split: if_splits)
  then show ?thesis
    using scanBatch_scanprogress [OF saved(1)] saved(2,5) by (simp add: afterBatch_def)
qed simp_all

lemma batch_nonempty:
  "1 \<le> batchSize sc \<Longrightarrow> a \<le> currentBlock \<Longrightarrow>
   b = min (a + batchSize sc - 1) currentBlock \<Longrightarrow> a \<le> b"
  by simp

lemma head_or_failed:
  assumes "head_inv key a l s \<or> failed_inv key a b l s" "a \<le> b"
  shows "chain (progress l) = key" "lastScannedBlock (progress l) \<le> b"
    "\<exists>q. find (\<lambda>x. chain x = key) (scanprogress s) = Some q \<and> lastScannedBlock q = a - 1"
  using assms by (auto simp: head_inv_def failed_inv_def)

lemma head_inv_ok:
  assumes pre: "head_inv key a l s \<or> failed_inv key a b l s" and ab: "a \<le> b"
    and run: "processBatch e cc a b l s = (Inr (), l', s')"
  shows "head_inv key (b + 1) l' s'"
proof -
  note h = head_or_failed [OF pre ab]
  obtain q where q: "find (\<lambda>x. chain x = key) (scanprogress s) = Some q" using h(3) by blast
  have st: "scanprogress s' =
           map (\<lambda>q. if chain q = chain (progress l') then progress l' else q) (scanprogress s)"
    and ch: "chain (progress l') = key"
    using processBatch_saved_store [OF run] h(1) by simp_all
  have la: "lastScannedBlock (progress l') = b"
    using processBatch_calls [OF run] h(2) by auto
  let ?f = "\<lambda>q. if chain q = chain (progress l') then progress l' else q"
  have "find (\<lambda>x. chain x = key) (map ?f (scanprogress s))
          = map_option ?f (find (\<lambda>x. chain x = key) (scanprogress s))"
    by (rule find_map_same) (simp add: ch)
  moreover have "chain q = key" using find_Some_holds [OF q] .
  ultimately have "find (\<lambda>x. chain x = key) (scanprogress s') = Some (progress l')"
    using q st ch by simp
  then show ?thesis using ch la by (simp add: head_inv_def)
qed

lemma failed_inv_fail:
  assumes pre: "head_inv key a l s \<or> failed_inv key a b l s" and ab: "a \<le> b"
    and run: "processBatch e cc a b l s = (Inl err, l', s')"
  shows "failed_inv key a b l' s'"
proof -
  note h = head_or_failed [OF pre ab]
  have st: "scanprogress s' = scanprogress s" and ch: "chain (progress l') = key"
    using processBatch_failed_store [OF run] h(1) by simp_all
  consider (scan) "l' = l" "calls s' = calls s @ [Fetch a b]"
    | (save) "calls s' = calls s @ [Fetch a b, BatchStored a b]"
        "lastScannedBlock (progress l') = max (lastScannedBlock (progress l)) b"
    using processBatch_calls [OF run] by auto
  then show ?thesis
  proof cases
    case scan
    then show ?thesis using h ab st ch by (simp add: failed_inv_def)
  next
    case save
    then show ?thesis using h ab st ch by (simp add: failed_inv_def)
  qed
qed

lemma head_inv_delay: "head_inv key a l s \<Longrightarrow> head_inv key a l (delay ms s)"
  by (simp add: head_inv_def delay_def)

lemma failed_inv_delay: "failed_inv key a b l s \<Longrightarrow> failed_inv key a b l (delay ms s)"
  by (simp add: failed_inv_def delay_def)

lemma scanLoop_exhausted:
  assumes retries: "1 \<le> maxRetries sc" and bs: "1 \<le> batchSize sc"
    and init: "head_inv key fromBlock l s"
    and run: "scanLoop n e sc cc currentBlock fromBlock l s = Some (Inl err, l', s')"
  shows "\<exists>a b. failed_inv key a b l' s'"
proof -
  have ok: "\<And>a b l s l' s'. head_inv key a l s \<or> failed_inv key a b l s \<Longrightarrow> a \<le> currentBlock \<Longrightarrow>
                 b = min (a + batchSize sc - 1) currentBlock \<Longrightarrow>
                 processBatch e cc a b l s = (Inr (), l', s') \<Longrightarrow> head_inv key (b + 1) l' s'"
    using head_inv_ok batch_nonempty [OF bs] by blast
  have fail: "\<And>a b l s err l' s'. head_inv key a l s \<or> failed_inv key a b l s \<Longrightarrow> a \<le> currentBlock \<Longrightarrow>
                 b = min (a + batchSize sc - 1) currentBlock \<Longrightarrow>
                 processBatch e cc a b l s = (Inl err, l', s') \<Longrightarrow> failed_inv key a b l' s'"
    using failed_inv_fail batch_nonempty [OF bs] by blast
  have pauseI: "\<And>a ms l s. head_inv key a l s \<Longrightarrow> head_inv key a l (delay ms s)"
    by (rule head_inv_delay)
  have pauseF: "\<And>a b ms l s. failed_inv key a b l s \<Longrightarrow> failed_inv key a b l (delay ms s)"
    by (rule failed_inv_delay)
  show ?thesis
    using scanLoop_batches [where I = "head_inv key" and F = "failed_inv key",
          OF ok fail pauseI pauseF retries init run] by simp
qed

text \<open>
  With at least one retry configured and a batch size of at least one: when a scan cycle
  ends with an error that arose in a batch (the cycle made a fetch call), the last fetch
  call was for the failed batch \<open>[a, b]\<close> and the stored \<open>lastScannedBlock\<close> is \<open>a - 1\<close>.
\<close>

lemma exhausted_retries_keep_progress:
  assumes retries: "1 \<le> maxRetries sc" and bs: "1 \<le> batchSize sc"
    and idle: "\<not> isScanning s"
    and run: "scanForNewEvents n e sc cc s = Some (Inl err, s')"
    and fetching: "fetched (calls s') \<noteq> fetched (calls s)"
  shows "\<exists>a b q. last (fetched (calls s')) = (a, b) \<and> progressOf cc s' = Some q \<and>
           lastScannedBlock q = a - 1"
proof -
  let ?s0 = "s\<lparr>isScanning := True\<rparr>"
  obtain s1 where body: "scanBody n e sc cc ?s0 = Some (Inl err, s1)"
    and s': "s' = s1\<lparr>isScanning := False\<rparr>"
    using run idle by (auto simp: scanForNewEvents_def split: option.splits)
  obtain r1 t1 where g: "getScanProgress e cc ?s0 = (r1, t1)"
    by (cases "getScanProgress e cc ?s0")
  have c1: "calls t1 = calls s" and p1: "scanprogress t1 = scanprogress s"
    using getScanProgress_frame [OF g] by simp_all
  show ?thesis
  proof (cases r1)
    case (Inl err1)
    then have "s1 = t1" using body g by (simp add: scanBody_def)
    then show ?thesis using c1 s' fetching by simp
  next
    case found: (Inr p)
    have fp: "find (\<lambda>x. chain x = toLowerCase (name cc)) (scanprogress s) = Some p"
      using getScanProgress_found [OF g [unfolded found]] by simp
    obtain r2 t2 where h: "getCurrentBlockNumber e t1 = (r2, t2)"
      by (cases "getCurrentBlockNumber e t1")
    have f2: "fetched (calls t2) = fetched (calls s)"
      using getCurrentBlockNumber_fetched [OF h] c1 by simp
    have p2: "scanprogress t2 = scanprogress s"
      using getCurrentBlockNumberFrom_frame [OF h [unfolded getCurrentBlockNumber_def]] p1 by simp
    show ?thesis
    proof (cases r2)
      case (Inl err2)
      then have "s1 = t2" using body g found h by (simp add: scanBody_def)
      then show ?thesis using f2 s' fetching by simp
    next
      case (Inr cb)
      show ?thesis
      proof (cases "lastScannedBlock p \<ge> cb")
        case True
        then show ?thesis using body g found h Inr by (simp add: scanBody_def)
      next
        case False
        let ?l = "\<lparr>progress = p, totalEvents = 0, totalBlocks = 0\<rparr>"
        obtain l3 where loop:
          "scanLoop n e sc cc cb (lastScannedBlock p + 1) ?l t2 = Some (Inl err, l3, s1)"
          using body g found h Inr False by (auto simp: scanBody_def split: option.splits)
        have init: "head_inv (toLowerCase (name cc)) (lastScannedBlock p + 1) ?l t2"
          using fp p2 find_Some_holds [OF fp] by (simp add: head_inv_def)
        obtain a b where "failed_inv (toLowerCase (name cc)) a b l3 s1"
          using scanLoop_exhausted [OF retries bs init loop] by blast
        then show ?thesis using s' by (auto simp: failed_inv_def progressOf_def)
      qed
    qed
  qed
qed

section \<open>A configuration without retries: the error is swallowed\<close>

lemma swallowed_error_run:
  "\<exists>s'. scanForNewEvents (Suc 0) (rpcFailing 2) noRetries polygon (idle [progressAt 0])
           = Some (Inr (), s') \<and>
         calls s' = [Fetch 1 2] \<and>
         map lastScannedBlock (scanprogress s') = [0]"
  by (simp add: run_defs fixture_defs rpcFailing_def noRetries_def cong: weak_congs)

text \<open>
  C3 at \<open>maxRetries = 0\<close>. Every event query fails; the single batch \<open>[1, 2]\<close> is fetched
  once and never retried, and \<open>scanForNewEvents\<close> returns normally: the error of the
  batch does not reach the caller. (With \<open>maxRetries \<ge> 1\<close> the claim holds:
  \<open>retry_attempts_and_delays\<close>, \<open>exhausted_retries_keep_progress\<close>.)
\<close>

theorem batch_failure_without_retries_is_swallowed:
  "fst (the (scanForNewEvents (Suc 0) (rpcFailing 2) noRetries polygon (idle [progressAt 0])))
     = Inr () \<and>
   calls (snd (the (scanForNewEvents (Suc 0) (rpcFailing 2) noRetries polygon
                      (idle [progressAt 0])))) = [Fetch 1 2]"
proof -
  obtain s' where
    "scanForNewEvents (Suc 0) (rpcFailing 2) noRetries polygon (idle [progressAt 0])
       = Some (Inr (), s')"
    "calls s' = [Fetch 1 2]"
    using swallowed_error_run by (elim exE conjE)
  then show ?thesis by simp
qed

end
